theory Spec2Isabelle
  imports Complex_Main "HOL-Library.Word" "HOL-Library.Signed_Division"
begin

unbundle bit_operations_syntax

section \<open>Bytes and C strings\<close>

text \<open>
  The firmware works on \<^verbatim>\<open>uint8_t\<close> and \<^verbatim>\<open>char\<close> bytes; both are 8-bit words here.
  A C string is modelled by its contents, the bytes in front of the terminating NUL:
  every function that takes a \<^verbatim>\<open>const char *\<close> takes such a list, and the one place
  where a buffer is read as a string (the line buffer) goes through \<open>c_str\<close>.
\<close>

type_synonym byte = "8 word"

abbreviation (input) ch :: "char \<Rightarrow> byte" where
  "ch c \<equiv> of_char c"

definition bytes_of :: "string \<Rightarrow> byte list" where
  "bytes_of s = map of_char s"

definition c_str :: "byte list \<Rightarrow> byte list" where
  "c_str buf = takeWhile (\<lambda>b. b \<noteq> 0) buf"

text \<open>\<^verbatim>\<open>strchr\<close>: the offset of the first occurrence, \<open>None\<close> for NULL.\<close>

fun strchr :: "byte list \<Rightarrow> byte \<Rightarrow> nat option" where
  "strchr [] c = None"
| "strchr (x # xs) c = (if x = c then Some 0 else map_option Suc (strchr xs c))"

text \<open>
  \<^verbatim>\<open>strncpy(dst, src, n)\<close>: exactly \<open>n\<close> bytes of \<open>dst\<close> are written, the source
  padded with NUL when it is shorter; the bytes of \<open>dst\<close> from offset \<open>n\<close> on are not touched.
\<close>

definition strncpy :: "byte list \<Rightarrow> byte list \<Rightarrow> nat \<Rightarrow> byte list" where
  "strncpy dst src n = take n (src @ replicate n 0) @ drop n dst"

section \<open>OBIS table and matcher\<close>

datatype obis_id_t =
    OBIS_ID_NONE
  | OBIS_ID_METER_ID | OBIS_ID_TIMESTAMP | OBIS_ID_POWER_LIMIT
  | OBIS_ID_ENERGY_DEL_LOW | OBIS_ID_ENERGY_DEL_HIGH
  | OBIS_ID_ENERGY_PROD_LOW | OBIS_ID_ENERGY_PROD_HIGH
  | OBIS_ID_CURRENT_POWER | OBIS_ID_CURRENT_RETURN
  | OBIS_ID_POWER_L1 | OBIS_ID_POWER_L2 | OBIS_ID_POWER_L3
  | OBIS_ID_RETURN_L1 | OBIS_ID_RETURN_L2 | OBIS_ID_RETURN_L3
  | OBIS_ID_VOLTAGE_L1 | OBIS_ID_VOLTAGE_L2 | OBIS_ID_VOLTAGE_L3
  | OBIS_ID_CURRENT_L1 | OBIS_ID_CURRENT_L2 | OBIS_ID_CURRENT_L3
  | OBIS_ID_PF_TOTAL | OBIS_ID_PF_L1 | OBIS_ID_PF_L2 | OBIS_ID_PF_L3

text \<open>The numeric value of an enumerator (\<^verbatim>\<open>enum obis_id_t : uint8_t\<close>, counted from 0).\<close>

fun obis_num :: "obis_id_t \<Rightarrow> nat" where
  "obis_num OBIS_ID_NONE = 0"
| "obis_num OBIS_ID_METER_ID = 1"
| "obis_num OBIS_ID_TIMESTAMP = 2"
| "obis_num OBIS_ID_POWER_LIMIT = 3"
| "obis_num OBIS_ID_ENERGY_DEL_LOW = 4"
| "obis_num OBIS_ID_ENERGY_DEL_HIGH = 5"
| "obis_num OBIS_ID_ENERGY_PROD_LOW = 6"
| "obis_num OBIS_ID_ENERGY_PROD_HIGH = 7"
| "obis_num OBIS_ID_CURRENT_POWER = 8"
| "obis_num OBIS_ID_CURRENT_RETURN = 9"
| "obis_num OBIS_ID_POWER_L1 = 10"
| "obis_num OBIS_ID_POWER_L2 = 11"
| "obis_num OBIS_ID_POWER_L3 = 12"
| "obis_num OBIS_ID_RETURN_L1 = 13"
| "obis_num OBIS_ID_RETURN_L2 = 14"
| "obis_num OBIS_ID_RETURN_L3 = 15"
| "obis_num OBIS_ID_VOLTAGE_L1 = 16"
| "obis_num OBIS_ID_VOLTAGE_L2 = 17"
| "obis_num OBIS_ID_VOLTAGE_L3 = 18"
| "obis_num OBIS_ID_CURRENT_L1 = 19"
| "obis_num OBIS_ID_CURRENT_L2 = 20"
| "obis_num OBIS_ID_CURRENT_L3 = 21"
| "obis_num OBIS_ID_PF_TOTAL = 22"
| "obis_num OBIS_ID_PF_L1 = 23"
| "obis_num OBIS_ID_PF_L2 = 24"
| "obis_num OBIS_ID_PF_L3 = 25"

definition OBIS_TABLE :: "(string \<times> obis_id_t) list" where
  "OBIS_TABLE =
    [(''0-0:96.1.1'', OBIS_ID_METER_ID),
     (''0-0:1.0.0'', OBIS_ID_TIMESTAMP),
     (''0-0:17.0.0'', OBIS_ID_POWER_LIMIT),
     (''1-0:1.8.1'', OBIS_ID_ENERGY_DEL_LOW),
     (''1-0:1.8.2'', OBIS_ID_ENERGY_DEL_HIGH),
     (''1-0:2.8.1'', OBIS_ID_ENERGY_PROD_LOW),
     (''1-0:2.8.2'', OBIS_ID_ENERGY_PROD_HIGH),
     (''1-0:1.7.0'', OBIS_ID_CURRENT_POWER),
     (''1-0:2.7.0'', OBIS_ID_CURRENT_RETURN),
     (''1-0:21.7.0'', OBIS_ID_POWER_L1),
     (''1-0:41.7.0'', OBIS_ID_POWER_L2),
     (''1-0:61.7.0'', OBIS_ID_POWER_L3),
     (''1-0:22.7.0'', OBIS_ID_RETURN_L1),
     (''1-0:42.7.0'', OBIS_ID_RETURN_L2),
     (''1-0:62.7.0'', OBIS_ID_RETURN_L3),
     (''1-0:32.7.0'', OBIS_ID_VOLTAGE_L1),
     (''1-0:52.7.0'', OBIS_ID_VOLTAGE_L2),
     (''1-0:72.7.0'', OBIS_ID_VOLTAGE_L3),
     (''1-0:31.7.0'', OBIS_ID_CURRENT_L1),
     (''1-0:51.7.0'', OBIS_ID_CURRENT_L2),
     (''1-0:71.7.0'', OBIS_ID_CURRENT_L3),
     (''1-0:13.7.0'', OBIS_ID_PF_TOTAL),
     (''1-0:33.7.0'', OBIS_ID_PF_L1),
     (''1-0:53.7.0'', OBIS_ID_PF_L2),
     (''1-0:73.7.0'', OBIS_ID_PF_L3)]"

text \<open>
  \<^verbatim>\<open>strcmp_P_safe\<close>: the do-while loop reads one byte of each string per round; it
  returns at the NUL of \<open>str\<close> (true iff the other string ends there too) and leaves
  with false at the first difference.
\<close>

fun strcmp_P_safe :: "byte list \<Rightarrow> byte list \<Rightarrow> bool" where
  "strcmp_P_safe [] pstr = (pstr = [])"
| "strcmp_P_safe (c1 # str) [] = False"
| "strcmp_P_safe (c1 # str) (c2 # pstr) = (if c1 = c2 then strcmp_P_safe str pstr else False)"

fun match_table :: "(string \<times> obis_id_t) list \<Rightarrow> byte list \<Rightarrow> obis_id_t" where
  "match_table [] obis = OBIS_ID_NONE"
| "match_table ((obis_str, obis_id) # es) obis =
     (if strcmp_P_safe obis (bytes_of obis_str) then obis_id else match_table es obis)"

definition match_obis_code :: "byte list \<Rightarrow> obis_id_t" where
  "match_obis_code obis = match_table OBIS_TABLE obis"

section \<open>CRC16\<close>

fun crc16_bits :: "nat \<Rightarrow> 16 word \<Rightarrow> 16 word" where
  "crc16_bits 0 crc = crc"
| "crc16_bits (Suc n) crc =
     crc16_bits n (if crc AND 1 \<noteq> 0 then drop_bit 1 crc XOR 0xA001 else drop_bit 1 crc)"

definition crc16_update :: "16 word \<Rightarrow> byte \<Rightarrow> 16 word" where
  "crc16_update crc byte = crc16_bits 8 (crc XOR ucast byte)"

section \<open>Fixed-point conversion\<close>

text \<open>
  \<^verbatim>\<open>int64_t\<close> is a 64-bit word read in two's complement; arithmetic wraps around.
  C's \<^verbatim>\<open>/\<close> truncates towards zero.
\<close>

definition div_i64 :: "64 word \<Rightarrow> int \<Rightarrow> 64 word" where
  "div_i64 a b = word_of_int (sint a sdiv b)"

definition is_digit :: "byte \<Rightarrow> bool" where
  "is_digit c \<longleftrightarrow> ch CHR ''0'' \<le> c \<and> c \<le> ch CHR ''9''"

record atf_vars =
  result :: "64 word"
  fraction :: "64 word"
  decimal_seen :: bool
  frac_digits :: nat

fun atf_scan :: "byte list \<Rightarrow> atf_vars \<Rightarrow> atf_vars" where
  "atf_scan [] v = v"
| "atf_scan (c # str) v = atf_scan str
     (if c = ch CHR ''.'' then v\<lparr>decimal_seen := True\<rparr>
      else if is_digit c then
        (if \<not> decimal_seen v then v\<lparr>result := result v * 10 + ucast (c - ch CHR ''0'')\<rparr>
         else if frac_digits v < 6 then
           v\<lparr>fraction := fraction v * 10 + ucast (c - ch CHR ''0''),
             frac_digits := frac_digits v + 1\<rparr>
         else v)
      else v)"

function atf_pad :: "atf_vars \<Rightarrow> atf_vars" where
  "atf_pad v = (if frac_digits v < 6
                then atf_pad (v\<lparr>fraction := fraction v * 10, frac_digits := frac_digits v + 1\<rparr>)
                else v)"
  by pat_completeness auto
termination
  by (relation "measure (\<lambda>v. 6 - frac_digits v)") auto

declare atf_pad.simps [simp del]

definition ascii_to_fixed :: "byte list \<Rightarrow> nat \<Rightarrow> 64 word" where
  "ascii_to_fixed str scale =
    (let neg = (str \<noteq> [] \<and> hd str = ch CHR ''-'');
         sign = (if neg then - 1 else 1 :: 64 word);
         str1 = (if neg then tl str else str);
         v = atf_pad (atf_scan str1
               \<lparr>result = 0, fraction = 0, decimal_seen = False, frac_digits = 0\<rparr>);
         r = result v * 1000000 + fraction v;
         r' = (if scale = 2 then div_i64 r 10000
               else if scale = 3 then div_i64 r 1000
               else r)
     in r' * sign)"

section \<open>Value extraction\<close>

definition extract_value :: "byte list \<Rightarrow> byte list option" where
  "extract_value line =
    (case strchr line (ch CHR ''('') of
       None \<Rightarrow> None
     | Some i \<Rightarrow>
        (let start = drop (Suc i) line;
             end = strchr start (ch CHR '')'');
             unit = strchr start (ch CHR ''*'')
         in case (if unit \<noteq> None \<and> (end = None \<or> the unit < the end) then unit
                  else if end \<noteq> None then end
                  else None) of
              None \<Rightarrow> None
            | Some len \<Rightarrow> Some (take (if len \<ge> 80 then 79 else len) start)))"

section \<open>The telegram record\<close>

record dsmr_data_t =
  energy_delivered_low :: "64 word"
  energy_delivered_high :: "64 word"
  energy_produced_low :: "64 word"
  energy_produced_high :: "64 word"
  current_power :: "32 word"
  current_return :: "32 word"
  power_l1 :: "32 word"
  power_l2 :: "32 word"
  power_l3 :: "32 word"
  return_l1 :: "32 word"
  return_l2 :: "32 word"
  return_l3 :: "32 word"
  voltage_l1 :: "16 word"
  voltage_l2 :: "16 word"
  voltage_l3 :: "16 word"
  current_l1 :: "16 word"
  current_l2 :: "16 word"
  current_l3 :: "16 word"
  pf_total :: "32 word"
  pf_l1 :: "32 word"
  pf_l2 :: "32 word"
  pf_l3 :: "32 word"
  power_limit :: "32 word"
  meter_id :: "byte list"
  timestamp :: "byte list"
  equipment_id :: "byte list"
  is_3phase :: bool
  frame_complete :: bool
  has_pf_data :: bool

text \<open>The record after \<^verbatim>\<open>memset(data, 0, sizeof(dsmr_data_t))\<close>;
  the text fields are \<^verbatim>\<open>char[33]\<close>, \<^verbatim>\<open>char[14]\<close> and \<^verbatim>\<open>char[33]\<close>.\<close>

definition zero_data :: dsmr_data_t where
  "zero_data =
    \<lparr>energy_delivered_low = 0, energy_delivered_high = 0,
     energy_produced_low = 0, energy_produced_high = 0,
     current_power = 0, current_return = 0,
     power_l1 = 0, power_l2 = 0, power_l3 = 0,
     return_l1 = 0, return_l2 = 0, return_l3 = 0,
     voltage_l1 = 0, voltage_l2 = 0, voltage_l3 = 0,
     current_l1 = 0, current_l2 = 0, current_l3 = 0,
     pf_total = 0, pf_l1 = 0, pf_l2 = 0, pf_l3 = 0,
     power_limit = 0,
     meter_id = replicate 33 0, timestamp = replicate 14 0, equipment_id = replicate 33 0,
     is_3phase = False, frame_complete = False, has_pf_data = False\<rparr>"

definition store_value :: "dsmr_data_t \<Rightarrow> obis_id_t \<Rightarrow> byte list \<Rightarrow> dsmr_data_t" where
  "store_value data obis_type value_str =
    (if obis_type = OBIS_ID_METER_ID then
       data\<lparr>meter_id := strncpy (meter_id data) value_str (33 - 1)\<rparr>
     else if obis_type = OBIS_ID_TIMESTAMP then
       data\<lparr>timestamp := strncpy (timestamp data) value_str (14 - 1)\<rparr>
     else
      (let is_pf = (obis_num obis_type \<ge> obis_num OBIS_ID_PF_TOTAL
                     \<and> obis_num obis_type \<le> obis_num OBIS_ID_PF_L3);
           val =
            (if obis_num obis_type \<ge> obis_num OBIS_ID_VOLTAGE_L1
                 \<and> obis_num obis_type \<le> obis_num OBIS_ID_VOLTAGE_L3
             then ascii_to_fixed value_str 2
             else if obis_num obis_type \<ge> obis_num OBIS_ID_CURRENT_L1
                 \<and> obis_num obis_type \<le> obis_num OBIS_ID_CURRENT_L3
             then ascii_to_fixed value_str 3
             else if is_pf then div_i64 (ascii_to_fixed value_str 6) 100
             else ascii_to_fixed value_str 6);
           data = (if is_pf then data\<lparr>has_pf_data := True\<rparr> else data)
       in case obis_type of
            OBIS_ID_POWER_LIMIT \<Rightarrow> data\<lparr>power_limit := ucast val\<rparr>
          | OBIS_ID_ENERGY_DEL_LOW \<Rightarrow> data\<lparr>energy_delivered_low := val\<rparr>
          | OBIS_ID_ENERGY_DEL_HIGH \<Rightarrow> data\<lparr>energy_delivered_high := val\<rparr>
          | OBIS_ID_ENERGY_PROD_LOW \<Rightarrow> data\<lparr>energy_produced_low := val\<rparr>
          | OBIS_ID_ENERGY_PROD_HIGH \<Rightarrow> data\<lparr>energy_produced_high := val\<rparr>
          | OBIS_ID_CURRENT_POWER \<Rightarrow> data\<lparr>current_power := ucast val\<rparr>
          | OBIS_ID_CURRENT_RETURN \<Rightarrow> data\<lparr>current_return := ucast val\<rparr>
          | OBIS_ID_POWER_L1 \<Rightarrow> data\<lparr>power_l1 := ucast val\<rparr>
          | OBIS_ID_POWER_L2 \<Rightarrow> data\<lparr>power_l2 := ucast val, is_3phase := True\<rparr>
          | OBIS_ID_POWER_L3 \<Rightarrow> data\<lparr>power_l3 := ucast val, is_3phase := True\<rparr>
          | OBIS_ID_RETURN_L1 \<Rightarrow> data\<lparr>return_l1 := ucast val\<rparr>
          | OBIS_ID_RETURN_L2 \<Rightarrow> data\<lparr>return_l2 := ucast val\<rparr>
          | OBIS_ID_RETURN_L3 \<Rightarrow> data\<lparr>return_l3 := ucast val\<rparr>
          | OBIS_ID_VOLTAGE_L1 \<Rightarrow> data\<lparr>voltage_l1 := ucast val\<rparr>
          | OBIS_ID_VOLTAGE_L2 \<Rightarrow> data\<lparr>voltage_l2 := ucast val, is_3phase := True\<rparr>
          | OBIS_ID_VOLTAGE_L3 \<Rightarrow> data\<lparr>voltage_l3 := ucast val, is_3phase := True\<rparr>
          | OBIS_ID_CURRENT_L1 \<Rightarrow> data\<lparr>current_l1 := ucast val\<rparr>
          | OBIS_ID_CURRENT_L2 \<Rightarrow> data\<lparr>current_l2 := ucast val, is_3phase := True\<rparr>
          | OBIS_ID_CURRENT_L3 \<Rightarrow> data\<lparr>current_l3 := ucast val, is_3phase := True\<rparr>
          | OBIS_ID_PF_TOTAL \<Rightarrow> data\<lparr>pf_total := ucast val\<rparr>
          | OBIS_ID_PF_L1 \<Rightarrow> data\<lparr>pf_l1 := ucast val\<rparr>
          | OBIS_ID_PF_L2 \<Rightarrow> data\<lparr>pf_l2 := ucast val\<rparr>
          | OBIS_ID_PF_L3 \<Rightarrow> data\<lparr>pf_l3 := ucast val\<rparr>
          | _ \<Rightarrow> data))"

section \<open>Line processing\<close>

text \<open>
  \<^verbatim>\<open>strtol(hex, NULL, 16)\<close> of the C library: white space is skipped, then an optional
  sign and an optional \<^verbatim>\<open>0x\<close> prefix, then hexadecimal digits up to the first other
  byte. The argument here has at most four bytes, so the saturation of \<^verbatim>\<open>strtol\<close>
  at \<^verbatim>\<open>LONG_MAX\<close> cannot occur and is left out.
\<close>

definition is_space :: "byte \<Rightarrow> bool" where
  "is_space c \<longleftrightarrow> c = 32 \<or> (9 \<le> c \<and> c \<le> 13)"

definition hex_digit :: "byte \<Rightarrow> int option" where
  "hex_digit c =
    (if ch CHR ''0'' \<le> c \<and> c \<le> ch CHR ''9'' then Some (uint c - 48)
     else if ch CHR ''a'' \<le> c \<and> c \<le> ch CHR ''f'' then Some (uint c - 87)
     else if ch CHR ''A'' \<le> c \<and> c \<le> ch CHR ''F'' then Some (uint c - 55)
     else None)"

fun hex_accum :: "byte list \<Rightarrow> int \<Rightarrow> int" where
  "hex_accum [] acc = acc"
| "hex_accum (c # cs) acc =
     (case hex_digit c of None \<Rightarrow> acc | Some d \<Rightarrow> hex_accum cs (acc * 16 + d))"

definition strtol16 :: "byte list \<Rightarrow> int" where
  "strtol16 s =
    (let s1 = dropWhile is_space s;
         neg = (s1 \<noteq> [] \<and> hd s1 = ch CHR ''-'');
         s2 = (if s1 \<noteq> [] \<and> (hd s1 = ch CHR ''-'' \<or> hd s1 = ch CHR ''+'') then tl s1 else s1);
         s3 = (case s2 of
                 c0 # c1 # rest \<Rightarrow>
                   if c0 = ch CHR ''0'' \<and> (c1 = ch CHR ''x'' \<or> c1 = ch CHR ''X'') then rest else s2
               | _ \<Rightarrow> s2);
         v = hex_accum s3 0
     in if neg then - v else v)"

text \<open>
  The parser state. \<open>line_buffer\<close> is the \<^verbatim>\<open>char[80]\<close> array; \<open>data\<close> is the record
  behind the \<^verbatim>\<open>dsmr_data_t *\<close> pointer, which always points to the one working record.
\<close>

record dsmr_parser_t =
  line_buffer :: "byte list"
  line_index :: nat
  frame_active :: bool
  crc_calculated :: "16 word"
  crc_done :: bool
  data :: dsmr_data_t

definition process_line :: "dsmr_parser_t \<Rightarrow> byte list \<Rightarrow> dsmr_parser_t" where
  "process_line parser line =
    (if line = [] \<or> hd line = 13 then parser
     else if (hd line = ch CHR ''/'' \<or> (ch CHR ''A'' \<le> hd line \<and> hd line \<le> ch CHR ''Z''))
             \<and> strchr line (ch CHR '':'') = None then
       parser\<lparr>data := (data parser)
                \<lparr>equipment_id := strncpy (equipment_id (data parser)) line (33 - 1)\<rparr>\<rparr>
     else if hd line = ch CHR ''!'' then
       (let parser = parser\<lparr>frame_active := False\<rparr> in
        if length line \<ge> 5 then
          (let hex = [line ! 1, line ! 2, line ! 3, line ! 4];
               received_crc = (word_of_int (strtol16 hex) :: 16 word)
           in if received_crc = crc_calculated parser
              then parser\<lparr>data := (data parser)\<lparr>frame_complete := True\<rparr>\<rparr>
              else parser)
        else parser\<lparr>data := (data parser)\<lparr>frame_complete := True\<rparr>\<rparr>)
     else
       (case strchr line (ch CHR ''('') of
          None \<Rightarrow> parser
        | Some paren \<Rightarrow>
           (let obis_type = match_obis_code (take paren line) in
            if obis_type = OBIS_ID_NONE then parser
            else (case extract_value line of
                    None \<Rightarrow> parser
                  | Some val \<Rightarrow> parser\<lparr>data := store_value (data parser) obis_type val\<rparr>))))"

section \<open>The byte-at-a-time parser\<close>

definition dsmr_parser_init :: dsmr_parser_t where
  "dsmr_parser_init =
    \<lparr>line_buffer = replicate 80 0, line_index = 0, frame_active = False,
     crc_calculated = 0, crc_done = False, data = zero_data\<rparr>"

text \<open>The result is the returned \<^verbatim>\<open>uint8_t\<close> and the parser after the call.\<close>

definition dsmr_parse_byte :: "dsmr_parser_t \<Rightarrow> byte \<Rightarrow> nat \<times> dsmr_parser_t" where
  "dsmr_parse_byte parser c =
    (if \<not> frame_active parser then
       (if c = ch CHR ''/'' \<or> (ch CHR ''A'' \<le> c \<and> c \<le> ch CHR ''Z'')
            \<or> (ch CHR ''0'' \<le> c \<and> c \<le> ch CHR ''9'')
        then (0, parser\<lparr>frame_active := True, crc_done := False,
                         crc_calculated := crc16_update 0 c,
                         line_index := 1,
                         line_buffer := (line_buffer parser)[0 := c]\<rparr>)
        else (0, parser))
     else
       (let parser =
              (if \<not> crc_done parser
               then parser\<lparr>crc_calculated := crc16_update (crc_calculated parser) c,
                           crc_done := (c = ch CHR ''!'')\<rparr>
               else parser)
        in if c = 10 then
             (let parser = parser\<lparr>line_buffer := (line_buffer parser)[line_index parser := 0]\<rparr>;
                  parser = process_line parser (c_str (line_buffer parser));
                  parser = parser\<lparr>line_index := 0\<rparr>
              in if frame_complete (data parser) then (1, parser) else (0, parser))
           else if c = 13 then (0, parser)
           else if line_index parser < 80 - 1 then
             (0, parser\<lparr>line_buffer := (line_buffer parser)[line_index parser := c],
                          line_index := line_index parser + 1\<rparr>)
           else (0, parser)))"

text \<open>Feeding a byte sequence: the list of the returned values, and the last parser.\<close>

fun feed :: "dsmr_parser_t \<Rightarrow> byte list \<Rightarrow> nat list \<times> dsmr_parser_t" where
  "feed parser [] = ([], parser)"
| "feed parser (c # cs) =
     (let (r, parser') = dsmr_parse_byte parser c;
          (rs, parser'') = feed parser' cs
      in (r # rs, parser''))"

section \<open>The caller: publishing the last known good record\<close>

text \<open>
  The part of \<^verbatim>\<open>processDataByte\<close> that touches the parser, the working record
  (\<open>data\<close> of the parser) and \<^verbatim>\<open>dsmr_last_good\<close>; the TCP forwarding and the raw
  frame capture that follow read neither.
\<close>

record firmware =
  dsmr_parser :: dsmr_parser_t
  dsmr_last_good :: dsmr_data_t

definition firmware_boot :: firmware where
  "firmware_boot = \<lparr>dsmr_parser = dsmr_parser_init, dsmr_last_good = zero_data\<rparr>"

definition processDataByte :: "firmware \<Rightarrow> byte \<Rightarrow> firmware" where
  "processDataByte fw c =
    (let (r, parser) = dsmr_parse_byte (dsmr_parser fw) c in
     if r \<noteq> 0 then
       fw\<lparr>dsmr_last_good :=
            (if meter_id (data parser) ! 0 \<noteq> 0 \<and> frame_complete (data parser)
             then data parser else dsmr_last_good fw),
          dsmr_parser := dsmr_parser_init\<rparr>
     else fw\<lparr>dsmr_parser := parser\<rparr>)"

definition run_firmware :: "firmware \<Rightarrow> byte list \<Rightarrow> firmware" where
  "run_firmware fw cs = foldl processDataByte fw cs"

section \<open>Sample inputs\<close>

text \<open>A firmware that has consumed \<open>/A\<close>, a line feed and \<open>!\<close>: a frame without any
  \<open>0-0:96.1.1\<close> line, one byte before its end.\<close>

definition fw_no_meter_id :: firmware where
  "fw_no_meter_id =
     run_firmware (firmware_boot\<lparr>dsmr_last_good := zero_data\<lparr>power_limit := 7\<rparr>\<rparr>)
       (bytes_of ''/A'' @ [10] @ bytes_of ''!'')"

section \<open>Notions used to state the properties\<close>

text \<open>The characters that \<open>ascii_to_fixed\<close> acts on, apart from a leading minus sign.\<close>

definition keep_char :: "byte \<Rightarrow> bool" where
  "keep_char c \<longleftrightarrow> is_digit c \<or> c = ch CHR ''.''"

text \<open>A string without the characters that are neither a digit, nor a point, nor a
  minus sign in the first place.\<close>

definition significant :: "byte list \<Rightarrow> byte list" where
  "significant str =
     (if str \<noteq> [] \<and> hd str = ch CHR ''-'' then ch CHR ''-'' # filter keep_char (tl str)
      else filter keep_char str)"

text \<open>The number that a string of decimal digits denotes, read after the digits \<open>n\<close>
  stands for.\<close>

definition dec_from :: "nat \<Rightarrow> byte list \<Rightarrow> nat" where
  "dec_from n ds = foldl (\<lambda>n c. 10 * n + unat (c - ch CHR ''0'')) n ds"

definition dec_value :: "byte list \<Rightarrow> nat" where
  "dec_value ds = dec_from 0 ds"

text \<open>The shape of the three text fields: \<^verbatim>\<open>char[33]\<close>, \<^verbatim>\<open>char[14]\<close> and
  \<^verbatim>\<open>char[33]\<close>, each with NUL in its last byte.\<close>

definition text_fields_ok :: "dsmr_data_t \<Rightarrow> bool" where
  "text_fields_ok d \<longleftrightarrow>
     length (meter_id d) = 33 \<and> meter_id d ! 32 = 0
     \<and> length (timestamp d) = 14 \<and> timestamp d ! 13 = 0
     \<and> length (equipment_id d) = 33 \<and> equipment_id d ! 32 = 0"

text \<open>A meter identifier line as meters send it: 32 characters between the brackets.\<close>

definition sample_meter_line :: "byte list" where
  "sample_meter_line = bytes_of ''0-0:96.1.1(4B384547303034303436333935353037)''"

definition long_text :: "byte list" where
  "long_text = bytes_of ''/XMX5LGBBFFB231215493-0123456789abcdef''"

text \<open>The part of the line buffer that holds the current line.\<close>

definition pending :: "dsmr_parser_t \<Rightarrow> byte list" where
  "pending p = take (line_index p) (line_buffer p)"

text \<open>What holds of the parser between two calls: the buffer has its 80 bytes, the index
  leaves room for the terminating NUL, and once \<open>!\<close> is in the current line the CRC is
  closed.\<close>

definition parser_inv :: "dsmr_parser_t \<Rightarrow> bool" where
  "parser_inv p \<longleftrightarrow>
     length (line_buffer p) = 80 \<and> line_index p \<le> 79
     \<and> (crc_done p \<or> ch CHR ''!'' \<notin> set (pending p))"

text \<open>The current line is a terminator line with at least four characters after the
  \<open>!\<close>, and the number read from them is not the accumulated CRC.\<close>

definition terminator_mismatch :: "dsmr_parser_t \<Rightarrow> bool" where
  "terminator_mismatch p \<longleftrightarrow>
     (let line = c_str ((line_buffer p)[line_index p := 0])
      in line \<noteq> [] \<and> hd line = ch CHR ''!'' \<and> length line \<ge> 5
         \<and> (word_of_int (strtol16 [line ! 1, line ! 2, line ! 3, line ! 4]) :: 16 word)
              \<noteq> crc_calculated p)"

definition fw_inv :: "firmware \<Rightarrow> bool" where
  "fw_inv fw \<longleftrightarrow>
     parser_inv (dsmr_parser fw) \<and> \<not> frame_complete (data (dsmr_parser fw))
     \<and> (dsmr_last_good fw = zero_data \<or> frame_complete (dsmr_last_good fw))"

text \<open>The parser after \<open>/A\<close>: in a frame, in the middle of a line.\<close>

definition parser_mid_line :: dsmr_parser_t where
  "parser_mid_line = snd (feed dsmr_parser_init (bytes_of ''/A''))"

text \<open>A frame up to the checksum digits \<open>0000\<close> of its last line; the CRC of the
  frame is not 0.\<close>

definition bytes_bad_crc :: "byte list" where
  "bytes_bad_crc = bytes_of ''/A'' @ [10] @ bytes_of ''!0000''"

text \<open>The CRC accumulator together with the flag that closes it, and one step of it:
  what \<open>dsmr_parse_byte\<close> does to the two for a byte in a frame.\<close>

definition crc_step :: "16 word \<times> bool \<Rightarrow> byte \<Rightarrow> 16 word \<times> bool" where
  "crc_step s c = (if snd s then s else (crc16_update (fst s) c, c = ch CHR ''!''))"

definition crc_feed :: "16 word \<times> bool \<Rightarrow> byte list \<Rightarrow> 16 word \<times> bool" where
  "crc_feed s bs = foldl crc_step s bs"

definition crc_of :: "dsmr_parser_t \<Rightarrow> 16 word \<times> bool" where
  "crc_of p = (crc_calculated p, crc_done p)"

definition is_frame_start :: "byte \<Rightarrow> bool" where
  "is_frame_start c \<longleftrightarrow>
     c = ch CHR ''/'' \<or> (ch CHR ''A'' \<le> c \<and> c \<le> ch CHR ''Z'') \<or> (ch CHR ''0'' \<le> c \<and> c \<le> ch CHR ''9'')"

definition crc16 :: "byte list \<Rightarrow> 16 word" where
  "crc16 bs = foldl crc16_update 0 bs"

text \<open>The end-to-end sample: an identification line (with a backslash, byte \<open>0x5C\<close>, in
  it), two data lines and the terminator; \<open>sample_body\<close> runs from the \<open>/\<close> through the
  \<open>!\<close>, and \<open>383D\<close> is its CRC in hexadecimal digits.\<close>

definition sample_l1 :: "byte list" where
  "sample_l1 = bytes_of ''/ISk5'' @ [0x5C] @ bytes_of ''2MT382-1000''"

definition sample_l2 :: "byte list" where
  "sample_l2 = bytes_of ''1-0:1.7.0(00.424*kW)''"

definition sample_l3 :: "byte list" where
  "sample_l3 = bytes_of ''1-0:2.7.0(00.000*kW)''"

definition sample_body :: "byte list" where
  "sample_body = sample_l1 @ [13, 10] @ sample_l2 @ [13, 10] @ sample_l3 @ [13, 10] @ bytes_of ''!''"

definition sample_telegram :: "byte list" where
  "sample_telegram = sample_body @ bytes_of ''383D'' @ [13, 10]"

definition sample_record :: dsmr_data_t where
  "sample_record =
     zero_data\<lparr>current_power := 424000, current_return := 0,
               equipment_id := sample_l1 @ replicate 16 0,
               frame_complete := True\<rparr>"

text \<open>A telegram: the body, from the \<open>/\<close> to the last line feed before the terminator,
  then \<open>!\<close>, the checksum digits, CR and LF.\<close>

definition telegram_of :: "byte list \<Rightarrow> byte list \<Rightarrow> byte list" where
  "telegram_of body hex = body @ ch CHR ''!'' # hex @ [13, 10]"

text \<open>The frame-complete flag of the record after the bytes were fed to a freshly
  initialised parser.\<close>

definition frame_ok :: "byte list \<Rightarrow> bool" where
  "frame_ok bs \<longleftrightarrow> frame_complete (data (snd (feed dsmr_parser_init bs)))"

text \<open>No frame is complete and no \<open>!\<close> is in the current line; and, on top of that, a
  frame is active whose CRC is open with value \<open>k\<close>.\<close>

definition quiet :: "dsmr_parser_t \<Rightarrow> bool" where
  "quiet p \<longleftrightarrow>
     parser_inv p \<and> \<not> frame_complete (data p) \<and> ch CHR ''!'' \<notin> set (pending p)"

definition open_frame :: "dsmr_parser_t \<Rightarrow> 16 word \<Rightarrow> bool" where
  "open_frame p k \<longleftrightarrow> quiet p \<and> frame_active p \<and> crc_of p = (k, False)"

text \<open>The body of the sample without its leading \<open>/\<close>.\<close>

definition sample_rest :: "byte list" where
  "sample_rest = tl sample_l1 @ [13, 10] @ sample_l2 @ [13, 10] @ sample_l3 @ [13, 10]"

text \<open>What follows the \<open>/\<close> in the body of a telegram with the short line \<open>1\<close>.\<close>

definition cx_rest :: "byte list" where
  "cx_rest = bytes_of ''A'' @ [13, 10] @ bytes_of ''1'' @ [13, 10]"

text \<open>A frame cut short after its first value, followed by a frame whose terminator line
  carries no checksum.\<close>

definition stranded_stream :: "byte list" where
  "stranded_stream =
     bytes_of ''/A'' @ [13, 10] @ sample_l2 @ [13, 10]
     @ bytes_of ''/B'' @ [13, 10] @ bytes_of ''!'' @ [13, 10]"

section \<open>The terminator line\<close>

lemma hex_digit_not_special:
  assumes "hex_digit c = Some d"
  shows "\<not> is_space c" "c \<noteq> ch CHR ''-''" "c \<noteq> ch CHR ''+''"
    "c \<noteq> ch CHR ''x''" "c \<noteq> ch CHR ''X''"
  using assms unfolding hex_digit_def is_space_def
  by (auto split: if_splits simp: word_le_nat_alt)

lemma strtol16_hex4:
  assumes "hex_digit h1 = Some d1" "hex_digit h2 = Some d2"
    "hex_digit h3 = Some d3" "hex_digit h4 = Some d4"
  shows "strtol16 [h1, h2, h3, h4] = ((d1 * 16 + d2) * 16 + d3) * 16 + d4"
  using assms hex_digit_not_special[OF assms(1)] hex_digit_not_special[OF assms(2)]
  by (simp add: strtol16_def)

text \<open>
  C3. A line that starts with \<open>!\<close> and goes on with four hexadecimal digits (and anything
  after them): the four digits are read as a 16-bit number and compared with the
  accumulated CRC. When they are equal the frame-complete flag of the record is set; when
  they differ the record is left as it was, and the frame is dropped (the parser leaves
  the frame). A line that is just \<open>!\<close> sets the flag without any comparison.
\<close>

theorem terminator_line_crc_check:
  assumes "hex_digit h1 = Some d1" "hex_digit h2 = Some d2"
    "hex_digit h3 = Some d3" "hex_digit h4 = Some d4"
  shows "process_line parser (ch CHR ''!'' # h1 # h2 # h3 # h4 # rest) =
           (if (word_of_int (((d1 * 16 + d2) * 16 + d3) * 16 + d4) :: 16 word)
                 = crc_calculated parser
            then parser\<lparr>frame_active := False,
                         data := (data parser)\<lparr>frame_complete := True\<rparr>\<rparr>
            else parser\<lparr>frame_active := False\<rparr>)
       \<and> process_line parser [ch CHR ''!''] =
            parser\<lparr>frame_active := False, data := (data parser)\<lparr>frame_complete := True\<rparr>\<rparr>"
  using strtol16_hex4[OF assms]
  by (simp add: process_line_def Let_def)

theorem terminator_line_crc_check_witness:
  "hex_digit (ch CHR ''1'') = Some 1 \<and> hex_digit (ch CHR ''A'') = Some 10
   \<and> hex_digit (ch CHR ''2'') = Some 2 \<and> hex_digit (ch CHR ''b'') = Some 11
   \<and> frame_complete (data (process_line (dsmr_parser_init\<lparr>crc_calculated := 0x1A2B\<rparr>)
         (bytes_of ''!1A2b'')))
   \<and> \<not> frame_complete (data (process_line (dsmr_parser_init\<lparr>crc_calculated := 0x1A2C\<rparr>)
         (bytes_of ''!1A2b'')))"
proof -
  have h: "hex_digit (ch CHR ''1'') = Some 1" "hex_digit (ch CHR ''A'') = Some 10"
    "hex_digit (ch CHR ''2'') = Some 2" "hex_digit (ch CHR ''b'') = Some 11"
    by (simp_all add: hex_digit_def)
  show ?thesis
    using h terminator_line_crc_check[OF h, of "dsmr_parser_init\<lparr>crc_calculated := 0x1A2B\<rparr>" "[]"]
      terminator_line_crc_check[OF h, of "dsmr_parser_init\<lparr>crc_calculated := 0x1A2C\<rparr>" "[]"]
    by (simp add: bytes_of_def dsmr_parser_init_def zero_data_def)
qed

text \<open>
  C10. A line that starts with \<open>!\<close> and carries one, two or three more characters, of
  any kind: the frame-complete flag is set whatever the accumulated CRC is, and the result
  is the one of the line that is just \<open>!\<close>.
\<close>

theorem short_terminator_accepted:
  assumes "rest \<noteq> []" "length rest \<le> 3"
  shows "process_line parser (ch CHR ''!'' # rest) =
           parser\<lparr>frame_active := False, data := (data parser)\<lparr>frame_complete := True\<rparr>\<rparr>
       \<and> process_line parser (ch CHR ''!'' # rest) = process_line parser [ch CHR ''!'']"
  using assms by (simp add: process_line_def Let_def)

theorem short_terminator_accepted_witness:
  "bytes_of ''zz'' \<noteq> [] \<and> length (bytes_of ''zz'') \<le> 3
   \<and> frame_complete (data (process_line (dsmr_parser_init\<lparr>crc_calculated := 0x1234\<rparr>)
        (bytes_of ''!zz'')))"
  using short_terminator_accepted[of "bytes_of ''zz''" "dsmr_parser_init\<lparr>crc_calculated := 0x1234\<rparr>"]
  by (simp add: bytes_of_def)

section \<open>Publishing\<close>

text \<open>
  C9. When \<open>dsmr_parse_byte\<close> returns 1 and the first byte of the working record's
  \<open>meter_id\<close> is NUL, \<open>processDataByte\<close> leaves \<open>dsmr_last_good\<close> as it was, and the
  parser and the working record are reinitialised all the same.
\<close>

theorem empty_meter_id_not_published:
  assumes "dsmr_parse_byte (dsmr_parser fw) c = (1, parser')"
    and "meter_id (data parser') ! 0 = 0"
  shows "dsmr_last_good (processDataByte fw c) = dsmr_last_good fw
       \<and> dsmr_parser (processDataByte fw c) = dsmr_parser_init
       \<and> data (dsmr_parser (processDataByte fw c)) = zero_data"
  using assms by (simp add: processDataByte_def dsmr_parser_init_def)

theorem empty_meter_id_not_published_witness:
  "fst (dsmr_parse_byte (dsmr_parser fw_no_meter_id) 10) = 1
   \<and> meter_id (data (snd (dsmr_parse_byte (dsmr_parser fw_no_meter_id) 10))) ! 0 = 0
   \<and> frame_complete (data (snd (dsmr_parse_byte (dsmr_parser fw_no_meter_id) 10)))
   \<and> dsmr_last_good (processDataByte fw_no_meter_id 10) = zero_data\<lparr>power_limit := 7\<rparr>
   \<and> dsmr_parser (processDataByte fw_no_meter_id 10) = dsmr_parser_init"
proof -
  have r: "fst (dsmr_parse_byte (dsmr_parser fw_no_meter_id) 10) = 1"
    by code_simp
  have m: "meter_id (data (snd (dsmr_parse_byte (dsmr_parser fw_no_meter_id) 10))) ! 0 = 0"
    by code_simp
  have f: "frame_complete (data (snd (dsmr_parse_byte (dsmr_parser fw_no_meter_id) 10)))"
    by code_simp
  have g: "dsmr_last_good fw_no_meter_id = zero_data\<lparr>power_limit := 7\<rparr>"
    by code_simp
  have p: "dsmr_parse_byte (dsmr_parser fw_no_meter_id) 10
             = (1, snd (dsmr_parse_byte (dsmr_parser fw_no_meter_id) 10))"
    using r by (metis prod.collapse)
  show ?thesis
    using empty_meter_id_not_published[OF p m] r m f g by simp
qed

section \<open>Fixed-point conversion\<close>

lemma atf_scan_filter: "atf_scan (filter keep_char str) v = atf_scan str v"
  by (induction str arbitrary: v) (simp_all add: keep_char_def)

lemma minus_not_keep: "\<not> keep_char (ch CHR ''-'')"
  by (simp add: keep_char_def is_digit_def)

lemma hd_filter_keep:
  "filter keep_char str \<noteq> [] \<Longrightarrow> hd (filter keep_char str) \<noteq> ch CHR ''-''"
  by (metis filter_eq_Cons_iff list.exhaust_sel minus_not_keep)

lemma ascii_to_fixed_significant:
  "ascii_to_fixed (significant str) scale = ascii_to_fixed str scale"
proof (cases "str \<noteq> [] \<and> hd str = ch CHR ''-''")
  case True
  then show ?thesis
    by (simp add: significant_def ascii_to_fixed_def atf_scan_filter Let_def)
next
  case False
  then have "significant str = filter keep_char str"
    by (auto simp: significant_def)
  moreover have "\<not> (filter keep_char str \<noteq> [] \<and> hd (filter keep_char str) = ch CHR ''-'')"
    using hd_filter_keep by blast
  ultimately show ?thesis
    using False by (auto simp: ascii_to_fixed_def atf_scan_filter Let_def)
qed

lemma atf_scan_no_digit:
  "\<forall>c\<in>set str. \<not> is_digit c \<Longrightarrow>
     result (atf_scan str v) = result v \<and> fraction (atf_scan str v) = fraction v
     \<and> frac_digits (atf_scan str v) = frac_digits v"
  by (induction str arbitrary: v) simp_all

text \<open>The padding loop in closed form.\<close>

lemma atf_pad_eq:
  "atf_pad v = (if frac_digits v < 6
                then v\<lparr>fraction := fraction v * 10 ^ (6 - frac_digits v), frac_digits := 6\<rparr>
                else v)"
proof (induction v rule: atf_pad.induct)
  case (1 v)
  show ?case
  proof (cases "frac_digits v < 6")
    case True
    then have "6 - frac_digits v = Suc (6 - (frac_digits v + 1))" by simp
    with True 1 show ?thesis
      by (subst atf_pad.simps) (auto simp: mult.assoc)
  next
    case False
    then show ?thesis by (subst atf_pad.simps) simp
  qed
qed

lemma div_i64_0: "div_i64 0 b = 0"
  by (simp add: div_i64_def)

lemma ascii_to_fixed_no_digit:
  assumes "\<forall>c\<in>set str. \<not> is_digit c"
  shows "ascii_to_fixed str scale = 0"
proof -
  define v0 where
    "v0 = \<lparr>result = 0, fraction = 0 :: 64 word, decimal_seen = False, frac_digits = 0\<rparr>"
  have t: "\<forall>c\<in>set (tl str). \<not> is_digit c"
    using assms by (cases str) simp_all
  have a: "result (atf_pad (atf_scan s v0)) = 0 \<and> fraction (atf_pad (atf_scan s v0)) = 0"
    if "\<forall>c\<in>set s. \<not> is_digit c" for s
    using atf_scan_no_digit[OF that, of v0] by (subst (1 2) atf_pad_eq) (simp add: v0_def)
  show ?thesis
    using a[OF assms] a[OF t]
    by (auto simp: ascii_to_fixed_def Let_def div_i64_0 v0_def)
qed

text \<open>
  C6. \<open>ascii_to_fixed\<close> is a total function: the scan is a structural recursion over the
  string and the padding loop has a decreasing measure, so a value comes back for every
  string and every scale. A string without any digit gives 0 at every scale. A character
  that is neither a digit nor a point leaves the variables of the scan as they are, and
  the scan goes on with the rest of the string; so the result of a string is the result
  of the string without these characters (the minus sign counts only in the first place
  of the string).
\<close>

theorem ascii_to_fixed_tolerant:
  "((\<forall>c\<in>set str. \<not> is_digit c) \<longrightarrow> ascii_to_fixed str scale = 0)
   \<and> (\<not> is_digit c \<and> c \<noteq> ch CHR ''.'' \<longrightarrow> atf_scan (c # str) v = atf_scan str v)
   \<and> ascii_to_fixed (significant str) scale = ascii_to_fixed str scale"
  using ascii_to_fixed_no_digit[of str scale] ascii_to_fixed_significant[of str scale]
  by simp

theorem ascii_to_fixed_tolerant_witness:
  "filter is_digit (bytes_of ''-.kW*'') = [] \<and> ascii_to_fixed (bytes_of ''-.kW*'') 3 = 0
   \<and> \<not> is_digit (ch CHR '' '') \<and> ch CHR '' '' \<noteq> (ch CHR ''.'' :: byte)
   \<and> significant (bytes_of ''-2 29.5\<newline>0V'') = bytes_of ''-229.50''
   \<and> ascii_to_fixed (bytes_of ''-2 29.5\<newline>0V'') 2 = - 22950"
proof -
  have a: "\<forall>c\<in>set (bytes_of ''-.kW*''). \<not> is_digit c"
    by (simp add: bytes_of_def is_digit_def)
  have b: "significant (bytes_of ''-2 29.5\<newline>0V'') = bytes_of ''-229.50''"
    by (simp add: significant_def bytes_of_def keep_char_def is_digit_def)
  have c: "ascii_to_fixed (bytes_of ''-229.50'') 2 = - 22950"
    by code_simp
  show ?thesis
    using a b c ascii_to_fixed_tolerant[where str = "bytes_of ''-.kW*''" and scale = 3]
      ascii_to_fixed_tolerant[where str = "bytes_of ''-2 29.5\<newline>0V''" and scale = 2]
    by (simp add: is_digit_def)
qed

lemma atf_scan_int_part:
  assumes "\<forall>c\<in>set ds. is_digit c" "\<not> decimal_seen v" "result v = of_nat n"
  shows "atf_scan ds v = v\<lparr>result := of_nat (dec_from n ds)\<rparr>"
  using assms
proof (induction ds arbitrary: v n)
  case Nil
  then show ?case by (simp add: dec_from_def)
next
  case (Cons c ds)
  have nd: "c \<noteq> ch CHR ''.''"
    using Cons.prems(1) by (auto simp: is_digit_def)
  let ?v = "v\<lparr>result := result v * 10 + ucast (c - ch CHR ''0'')\<rparr>"
  have "atf_scan (c # ds) v = atf_scan ds ?v"
    using Cons.prems nd by simp
  also have "\<dots> = ?v\<lparr>result := of_nat (dec_from (10 * n + unat (c - ch CHR ''0'')) ds)\<rparr>"
    using Cons.prems by (intro Cons.IH) (simp_all add: mult.commute)
  finally show ?case by (simp add: dec_from_def)
qed

lemma atf_scan_frac_part:
  assumes "\<forall>c\<in>set ds. is_digit c" "decimal_seen v" "fraction v = of_nat n"
    "frac_digits v + length ds \<le> 6"
  shows "atf_scan ds v = v\<lparr>fraction := of_nat (dec_from n ds),
                            frac_digits := frac_digits v + length ds\<rparr>"
  using assms
proof (induction ds arbitrary: v n)
  case Nil
  then show ?case by (simp add: dec_from_def)
next
  case (Cons c ds)
  have nd: "c \<noteq> ch CHR ''.''"
    using Cons.prems(1) by (auto simp: is_digit_def)
  let ?v = "v\<lparr>fraction := fraction v * 10 + ucast (c - ch CHR ''0''),
              frac_digits := frac_digits v + 1\<rparr>"
  have "atf_scan (c # ds) v = atf_scan ds ?v"
    using Cons.prems nd by simp
  also have "\<dots> = ?v\<lparr>fraction := of_nat (dec_from (10 * n + unat (c - ch CHR ''0'')) ds),
                       frac_digits := frac_digits ?v + length ds\<rparr>"
    using Cons.prems by (intro Cons.IH) (simp_all add: mult.commute)
  finally show ?case by (simp add: dec_from_def)
qed

lemma atf_scan_append: "atf_scan (xs @ ys) v = atf_scan ys (atf_scan xs v)"
  by (induction xs arbitrary: v) simp_all

lemma ascii_to_fixed_decimal_word:
  assumes D: "\<forall>c\<in>set D. is_digit c" and F: "\<forall>c\<in>set F. is_digit c" and len: "length F \<le> 6"
  shows "ascii_to_fixed (D @ ch CHR ''.'' # F) 6
           = of_nat (dec_value D * 1000000 + dec_value F * 10 ^ (6 - length F))"
proof -
  define v0 :: atf_vars where
    "v0 = \<lparr>result = 0, fraction = 0, decimal_seen = False, frac_digits = 0\<rparr>"
  have nohd: "\<not> (D @ ch CHR ''.'' # F \<noteq> [] \<and> hd (D @ ch CHR ''.'' # F) = ch CHR ''-'')"
    using D by (cases D) (auto simp: is_digit_def)
  have s1: "atf_scan D v0 = v0\<lparr>result := of_nat (dec_value D)\<rparr>"
    using atf_scan_int_part[OF D, of v0 0] by (simp add: v0_def dec_value_def)
  have s2: "atf_scan (ch CHR ''.'' # F) (v0\<lparr>result := of_nat (dec_value D)\<rparr>)
              = v0\<lparr>result := of_nat (dec_value D), decimal_seen := True,
                    fraction := of_nat (dec_value F), frac_digits := length F\<rparr>"
    using atf_scan_frac_part[OF F,
        of "v0\<lparr>result := of_nat (dec_value D), decimal_seen := True\<rparr>" 0] len
    by (simp add: v0_def dec_value_def)
  have s3: "atf_scan (D @ ch CHR ''.'' # F) v0
              = v0\<lparr>result := of_nat (dec_value D), decimal_seen := True,
                    fraction := of_nat (dec_value F), frac_digits := length F\<rparr>"
    by (simp only: atf_scan_append s1 s2)
  have pad: "fraction (atf_pad (atf_scan (D @ ch CHR ''.'' # F) v0))
               = of_nat (dec_value F) * 10 ^ (6 - length F)"
       "result (atf_pad (atf_scan (D @ ch CHR ''.'' # F) v0)) = of_nat (dec_value D)"
    using len unfolding s3 by (simp_all add: atf_pad_eq v0_def)
  show ?thesis
    using nohd pad unfolding ascii_to_fixed_def Let_def v0_def
    by simp
qed

lemma sint_of_nat_small:
  assumes "n < 2 ^ 63"
  shows "sint (of_nat n :: 64 word) = int n"
proof -
  have "signed_take_bit 63 (int n) = int n"
    using assms by (intro signed_take_bit_int_eq_self) simp_all
  then show ?thesis
    by (simp add: signed_of_nat)
qed

text \<open>
  C7. For a string \<open>D.F\<close> of decimal digits \<open>D\<close>, a point and at most six decimal digits
  \<open>F\<close>, whose value in millionths fits the signed 64-bit result: at scale 6 the result is
  \<open>D\<close> times 1000000 plus \<open>F\<close> filled up with zeros to six digits, and the result divided
  by \<open>10^6\<close> is the decimal number \<open>D.F\<close> itself (so the two differ by less than \<open>1e-6\<close>).
\<close>

theorem ascii_to_fixed_round_trip:
  assumes "\<forall>c\<in>set D. is_digit c" and "\<forall>c\<in>set F. is_digit c" and "length F \<le> 6"
    and "dec_value D * 1000000 + dec_value F * 10 ^ (6 - length F) < 2 ^ 63"
  shows "sint (ascii_to_fixed (D @ ch CHR ''.'' # F) 6)
           = int (dec_value D) * 1000000 + int (dec_value F) * 10 ^ (6 - length F)
       \<and> \<bar>real_of_int (sint (ascii_to_fixed (D @ ch CHR ''.'' # F) 6)) / 10 ^ 6
            - (real (dec_value D) + real (dec_value F) / 10 ^ length F)\<bar> < 1 / 10 ^ 6"
proof -
  have eq: "sint (ascii_to_fixed (D @ ch CHR ''.'' # F) 6)
           = int (dec_value D) * 1000000 + int (dec_value F) * 10 ^ (6 - length F)"
  proof -
    define N where "N = dec_value D * 1000000 + dec_value F * 10 ^ (6 - length F)"
    have "ascii_to_fixed (D @ ch CHR ''.'' # F) 6 = of_nat N"
      unfolding N_def by (rule ascii_to_fixed_decimal_word[OF assms(1-3)])
    moreover have "N < 2 ^ 63"
      using assms(4) by (simp add: N_def)
    ultimately have "sint (ascii_to_fixed (D @ ch CHR ''.'' # F) 6) = int N"
      by (simp only: sint_of_nat_small)
    then show ?thesis
      by (simp add: N_def)
  qed
  have "(10::real) ^ length F * 10 ^ (6 - length F) = 10 ^ 6"
    using assms(3) by (simp flip: power_add)
  then have p: "(10::real) ^ length F * 10 ^ (6 - length F) = 1000000"
    by simp
  have req: "real_of_int (sint (ascii_to_fixed (D @ ch CHR ''.'' # F) 6)) / 10 ^ 6
          = real (dec_value D) + real (dec_value F) / 10 ^ length F"
    unfolding eq using p by (simp add: field_simps)
  show ?thesis
  proof (intro conjI)
    show "sint (ascii_to_fixed (D @ ch CHR ''.'' # F) 6)
           = int (dec_value D) * 1000000 + int (dec_value F) * 10 ^ (6 - length F)"
      by (fact eq)
    show "\<bar>real_of_int (sint (ascii_to_fixed (D @ ch CHR ''.'' # F) 6)) / 10 ^ 6
            - (real (dec_value D) + real (dec_value F) / 10 ^ length F)\<bar> < 1 / 10 ^ 6"
      unfolding req by simp
  qed
qed

theorem ascii_to_fixed_round_trip_witness:
  "filter (\<lambda>c. \<not> is_digit c) (bytes_of ''00229'' @ bytes_of ''504'') = []
   \<and> length (bytes_of ''504'') \<le> 6
   \<and> dec_value (bytes_of ''00229'') = 229 \<and> dec_value (bytes_of ''504'') = 504
   \<and> sint (ascii_to_fixed (bytes_of ''00229.504'') 6) = 229504000"
proof -
  have d: "\<forall>c\<in>set (bytes_of ''00229''). is_digit c" "\<forall>c\<in>set (bytes_of ''504''). is_digit c"
    by (simp_all add: bytes_of_def is_digit_def)
  have v: "dec_value (bytes_of ''00229'') = 229" "dec_value (bytes_of ''504'') = 504"
    by (simp_all add: bytes_of_def dec_value_def dec_from_def)
  have l: "length (bytes_of ''504'') \<le> 6"
    by (simp add: bytes_of_def)
  have r: "dec_value (bytes_of ''00229'') * 1000000
             + dec_value (bytes_of ''504'') * 10 ^ (6 - length (bytes_of ''504'')) < 2 ^ 63"
    unfolding v by (simp add: bytes_of_def)
  have s: "bytes_of ''00229'' @ ch CHR ''.'' # bytes_of ''504'' = bytes_of ''00229.504''"
    by (simp add: bytes_of_def)
  show ?thesis
    using ascii_to_fixed_round_trip[OF d l r] d l v unfolding s
    by (simp add: bytes_of_def)
qed

section \<open>Text fields\<close>

lemma c_str_no_nul: "0 \<notin> set s \<Longrightarrow> c_str (s @ 0 # rest) = s"
  by (induction s) (simp_all add: c_str_def)

lemma strncpy_shape:
  assumes "length dst = Suc n"
  shows "length (strncpy dst src n) = Suc n" and "strncpy dst src n ! n = dst ! n"
proof -
  have len: "length (take n (src @ replicate n 0)) = n"
    by simp
  show "length (strncpy dst src n) = Suc n"
    using assms by (simp add: strncpy_def)
  have "strncpy dst src n ! n = drop n dst ! 0"
    unfolding strncpy_def by (simp only: nth_append len) simp
  then show "strncpy dst src n ! n = dst ! n"
    using assms by simp
qed

lemma strncpy_c_str:
  assumes "0 \<notin> set src" "length dst = Suc n" "dst ! n = 0"
  shows "c_str (strncpy dst src n) = take n src"
proof -
  have d: "drop n dst = [0]"
    using assms(2,3)
    by (metis Cons_nth_drop_Suc drop_all lessI order_refl)
  have t: "take n (src @ replicate n 0) = take n src @ replicate (n - length src) 0"
    by simp
  have z: "take n src @ replicate (n - length src) 0 @ [0]
            = take n src @ 0 # replicate (n - length src) 0"
    by (simp add: replicate_append_same)
  have nz: "0 \<notin> set (take n src)"
    using assms(1) by (meson in_set_takeD)
  show "c_str (strncpy dst src n) = take n src"
    unfolding strncpy_def d t using z c_str_no_nul[OF nz] by simp
qed

lemma store_value_fields_ok:
  assumes "text_fields_ok d"
  shows "text_fields_ok (store_value d t str)"
  using assms strncpy_shape[of "meter_id d" 32 str] strncpy_shape[of "timestamp d" 13 str]
  by (cases t) (simp_all add: store_value_def text_fields_ok_def Let_def)

lemma process_line_fields_ok:
  assumes "text_fields_ok (data p)"
  shows "text_fields_ok (data (process_line p line))"
proof -
  have e: "text_fields_ok ((data p)\<lparr>equipment_id := strncpy (equipment_id (data p)) line 32\<rparr>)"
    using assms strncpy_shape[of "equipment_id (data p)" 32 line]
    by (simp add: text_fields_ok_def)
  have f: "text_fields_ok ((data p)\<lparr>frame_complete := True\<rparr>)"
    using assms by (simp add: text_fields_ok_def)
  show ?thesis
    using assms e f store_value_fields_ok[OF assms]
    by (simp add: process_line_def Let_def split: option.splits)
qed

lemma store_value_equipment_id: "equipment_id (store_value d t s) = equipment_id d"
  by (cases t) (simp_all add: store_value_def Let_def)

text \<open>
  C8, as the code has it. The meter identifier is a \<^verbatim>\<open>char[33]\<close> here, so the capacities
  are 32, 32 and 13 characters: the string read back from \<open>meter_id\<close> after a store is
  the first 32 characters of the value, the one read back from \<open>timestamp\<close> the first 13,
  and the one read back from \<open>equipment_id\<close> after an identification line the first 32
  characters of the line. Every store and every processed line leaves the three arrays
  at their sizes with NUL in the last byte: nothing is written behind a field.
\<close>

theorem text_fields_truncated:
  assumes "0 \<notin> set str" and "text_fields_ok (data parser)"
  shows "c_str (meter_id (store_value (data parser) OBIS_ID_METER_ID str)) = take 32 str
       \<and> c_str (timestamp (store_value (data parser) OBIS_ID_TIMESTAMP str)) = take 13 str
       \<and> (if str \<noteq> []
              \<and> (hd str = ch CHR ''/'' \<or> (ch CHR ''A'' \<le> hd str \<and> hd str \<le> ch CHR ''Z''))
              \<and> strchr str (ch CHR '':'') = None
           then c_str (equipment_id (data (process_line parser str))) = take 32 str
           else equipment_id (data (process_line parser str)) = equipment_id (data parser))
       \<and> text_fields_ok (store_value (data parser) obis_type str)
       \<and> text_fields_ok (data (process_line parser str))"
proof -
  have m: "c_str (meter_id (store_value (data parser) OBIS_ID_METER_ID str)) = take 32 str"
    using strncpy_c_str[OF assms(1), of "meter_id (data parser)" 32] assms(2)
    by (simp add: store_value_def text_fields_ok_def)
  have t: "c_str (timestamp (store_value (data parser) OBIS_ID_TIMESTAMP str)) = take 13 str"
    using strncpy_c_str[OF assms(1), of "timestamp (data parser)" 13] assms(2)
    by (simp add: store_value_def text_fields_ok_def)
  have e1: "c_str (equipment_id (data (process_line parser str))) = take 32 str"
    if "str \<noteq> []"
      "hd str = ch CHR ''/'' \<or> (ch CHR ''A'' \<le> hd str \<and> hd str \<le> ch CHR ''Z'')"
      "strchr str (ch CHR '':'') = None"
    using strncpy_c_str[OF assms(1), of "equipment_id (data parser)" 32] assms(2) that
    by (auto simp: process_line_def text_fields_ok_def)
  have e2: "equipment_id (data (process_line parser str)) = equipment_id (data parser)"
    if "\<not> (str \<noteq> []
            \<and> (hd str = ch CHR ''/'' \<or> (ch CHR ''A'' \<le> hd str \<and> hd str \<le> ch CHR ''Z''))
            \<and> strchr str (ch CHR '':'') = None)"
    using that
    by (auto simp: process_line_def Let_def store_value_equipment_id split: option.splits)
  show ?thesis
    using m t e1 e2 store_value_fields_ok[OF assms(2)] process_line_fields_ok[OF assms(2)]
    by (simp del: of_char_Char)
qed

theorem text_fields_truncated_witness:
  "0 \<notin> set long_text \<and> text_fields_ok (data dsmr_parser_init) \<and> length long_text = 38
   \<and> c_str (meter_id (store_value (data dsmr_parser_init) OBIS_ID_METER_ID long_text))
       = bytes_of ''/XMX5LGBBFFB231215493-0123456789''
   \<and> c_str (timestamp (store_value (data dsmr_parser_init) OBIS_ID_TIMESTAMP long_text))
       = bytes_of ''/XMX5LGBBFFB2''
   \<and> c_str (equipment_id (data (process_line dsmr_parser_init long_text)))
       = bytes_of ''/XMX5LGBBFFB231215493-0123456789''"
proof -
  have a: "0 \<notin> set long_text"
    by (simp add: long_text_def bytes_of_def)
  have b: "text_fields_ok (data dsmr_parser_init)"
    by (simp add: dsmr_parser_init_def zero_data_def text_fields_ok_def)
  have c: "strchr long_text (ch CHR '':'') = None" "hd long_text = ch CHR ''/''" "long_text \<noteq> []"
    by (simp_all add: long_text_def bytes_of_def)
  show ?thesis
    using text_fields_truncated[OF a b] a b c
    by (simp add: long_text_def bytes_of_def)
qed

text \<open>C8 as the claim states it fails: a meter identifier of 32 characters is stored in
  full, not cut to 16 characters.\<close>

theorem meter_id_not_cut_to_16:
  "c_str (meter_id (data (process_line dsmr_parser_init sample_meter_line)))
     = bytes_of ''4B384547303034303436333935353037''
   \<and> length (c_str (meter_id (data (process_line dsmr_parser_init sample_meter_line)))) = 32
   \<and> c_str (meter_id (data (process_line dsmr_parser_init sample_meter_line)))
       \<noteq> take 16 (bytes_of ''4B384547303034303436333935353037'')"
  by code_simp

section \<open>Invariants of the parser and of the caller\<close>

lemma c_str_append_nul: "c_str (xs @ 0 # ys) = c_str xs"
  by (induction xs) (simp_all add: c_str_def)

lemma c_str_update_nul: "i < length buf \<Longrightarrow> c_str (buf[i := 0]) = c_str (take i buf)"
  by (simp add: upd_conv_take_nth_drop c_str_append_nul)

lemma set_c_str: "set (c_str xs) \<subseteq> set xs"
  unfolding c_str_def by (auto dest: set_takeWhileD)

lemma store_value_frame_complete: "frame_complete (store_value d t s) = frame_complete d"
  by (cases t) (simp_all add: store_value_def Let_def)

lemma process_line_parser_fields:
  "line_buffer (process_line p l) = line_buffer p"
  "line_index (process_line p l) = line_index p"
  "crc_calculated (process_line p l) = crc_calculated p"
  "crc_done (process_line p l) = crc_done p"
  by (simp_all add: process_line_def Let_def split: option.splits)

lemma process_line_not_bang:
  assumes "l = [] \<or> hd l \<noteq> ch CHR ''!''"
  shows "frame_complete (data (process_line p l)) = frame_complete (data p)"
    and "frame_active (process_line p l) = frame_active p"
  using assms
  by (auto simp: process_line_def Let_def store_value_frame_complete split: option.splits)

lemma pending_append:
  assumes "length (line_buffer p) = 80" "line_index p < 79"
  shows "take (Suc (line_index p)) ((line_buffer p)[line_index p := c]) = pending p @ [c]"
  using assms by (simp add: pending_def take_Suc_conv_app_nth)

lemma parse_byte_inv:
  assumes "parser_inv p"
  shows "parser_inv (snd (dsmr_parse_byte p c))"
proof (cases "frame_active p")
  case False
  have "take (Suc 0) ((line_buffer p)[0 := c]) = [c]"
    using assms by (cases "line_buffer p") (simp_all add: parser_inv_def)
  then show ?thesis
    using False assms
    by (auto simp: dsmr_parse_byte_def parser_inv_def pending_def)
next
  case True
  show ?thesis
  proof (cases "c = 10")
    case nl: True
    then show ?thesis
      using True assms
      by (simp add: dsmr_parse_byte_def parser_inv_def pending_def Let_def
          process_line_parser_fields)
  next
    case False
    then show ?thesis
      using True assms pending_append[of p c]
      by (auto simp: dsmr_parse_byte_def parser_inv_def Let_def pending_def)
  qed
qed

lemma parse_byte_result:
  "fst (dsmr_parse_byte p c) = (if frame_active p \<and> c = 10 \<and> frame_complete (data (snd (dsmr_parse_byte p c))) then 1 else 0)"
  by (simp add: dsmr_parse_byte_def Let_def)

lemma parse_byte_data_other:
  assumes "\<not> (frame_active p \<and> c = 10)"
  shows "data (snd (dsmr_parse_byte p c)) = data p"
  using assms by (auto simp: dsmr_parse_byte_def Let_def)

lemma parse_byte_no_frame:
  assumes "\<not> frame_complete (data p)" "fst (dsmr_parse_byte p c) = 0"
  shows "\<not> frame_complete (data (snd (dsmr_parse_byte p c)))"
proof (cases "frame_active p \<and> c = 10")
  case True
  then show ?thesis
    using assms(2) by (subst (asm) parse_byte_result) (simp split: if_splits)
next
  case False
  then show ?thesis
    using assms(1) parse_byte_data_other[OF False] by simp
qed

lemma parser_init_inv: "parser_inv dsmr_parser_init"
  by (simp add: parser_inv_def dsmr_parser_init_def pending_def)

lemma process_step_inv:
  assumes "fw_inv fw"
  shows "fw_inv (processDataByte fw c)"
proof (cases "fst (dsmr_parse_byte (dsmr_parser fw) c) = 0")
  case True
  then have f: "\<not> frame_complete (data (snd (dsmr_parse_byte (dsmr_parser fw) c)))"
    using assms parse_byte_no_frame[of "dsmr_parser fw" c]
    by (simp add: fw_inv_def)
  show ?thesis
    using True f assms parse_byte_inv[of "dsmr_parser fw" c]
    by (cases "dsmr_parse_byte (dsmr_parser fw) c") (simp add: processDataByte_def fw_inv_def)
next
  case False
  then have "frame_complete (data (snd (dsmr_parse_byte (dsmr_parser fw) c)))"
    by (subst (asm) parse_byte_result) (simp split: if_splits)
  moreover have "\<not> frame_complete (data dsmr_parser_init)"
    by (simp add: dsmr_parser_init_def zero_data_def)
  ultimately show ?thesis
    using False assms parser_init_inv
    by (cases "dsmr_parse_byte (dsmr_parser fw) c") (auto simp: processDataByte_def fw_inv_def)
qed

lemma boot_inv: "fw_inv firmware_boot"
  using parser_init_inv
  by (simp add: fw_inv_def firmware_boot_def dsmr_parser_init_def zero_data_def)

lemma run_inv: "fw_inv fw \<Longrightarrow> fw_inv (run_firmware fw cs)"
  unfolding run_firmware_def
  by (induction cs arbitrary: fw) (simp_all add: process_step_inv)

lemma mismatch_no_frame:
  assumes inv: "parser_inv p" and nf: "\<not> frame_complete (data p)" and mm: "terminator_mismatch p"
  shows "fst (dsmr_parse_byte p c) = 0"
proof (cases "frame_active p \<and> c = 10")
  case False
  then show ?thesis by (auto simp: parse_byte_result)
next
  case True
  define line where "line = c_str ((line_buffer p)[line_index p := 0])"
  have l: "line \<noteq> []" "hd line = ch CHR ''!''" "length line \<ge> 5"
    "(word_of_int (strtol16 [line ! 1, line ! 2, line ! 3, line ! 4]) :: 16 word) \<noteq> crc_calculated p"
    using mm by (simp_all add: terminator_mismatch_def line_def Let_def)
  have "line = c_str (pending p)"
    using inv by (simp add: line_def pending_def parser_inv_def c_str_update_nul)
  then have "hd line \<in> set (pending p)"
    using l(1) set_c_str[of "pending p"] by (metis hd_in_set subsetD)
  then have cdone: "crc_done p"
    using inv l(2) by (auto simp: parser_inv_def)
  have "\<not> frame_complete (data (process_line (p\<lparr>line_buffer := B\<rparr>) line))" for B
    using l nf by (simp add: process_line_def Let_def del: of_char_Char)
  then show ?thesis
    using True cdone
    by (simp add: dsmr_parse_byte_def Let_def line_def[symmetric])
qed


text \<open>
  C5. Along every byte stream from boot: \<open>dsmr_last_good\<close> is the boot record or a
  record whose frame-complete flag is set; a byte changes \<open>dsmr_last_good\<close> only when it
  is the line feed on which \<open>dsmr_parse_byte\<close> returns 1, and then to the working record
  of that moment, whose frame-complete flag is set; and when the current line is a
  terminator line whose checksum comparison fails, \<open>dsmr_parse_byte\<close> returns 0 and
  \<open>dsmr_last_good\<close> stays as it is.
\<close>

theorem last_good_only_on_frame_ready:
  fixes cs :: "byte list" and c :: byte
  defines "fw \<equiv> run_firmware firmware_boot cs"
  shows "(dsmr_last_good fw = zero_data \<or> frame_complete (dsmr_last_good fw))
       \<and> (dsmr_last_good (processDataByte fw c) = dsmr_last_good fw
          \<or> (fst (dsmr_parse_byte (dsmr_parser fw) c) = 1 \<and> c = 10
             \<and> dsmr_last_good (processDataByte fw c) = data (snd (dsmr_parse_byte (dsmr_parser fw) c))
             \<and> frame_complete (dsmr_last_good (processDataByte fw c))
             \<and> \<not> terminator_mismatch (dsmr_parser fw)))
       \<and> (terminator_mismatch (dsmr_parser fw) \<longrightarrow>
            fst (dsmr_parse_byte (dsmr_parser fw) c) = 0
            \<and> dsmr_last_good (processDataByte fw c) = dsmr_last_good fw)"
proof -
  have inv: "fw_inv fw"
    unfolding fw_def by (rule run_inv[OF boot_inv])
  have mm: "fst (dsmr_parse_byte (dsmr_parser fw) c) = 0" if "terminator_mismatch (dsmr_parser fw)"
    using inv that mismatch_no_frame by (simp add: fw_inv_def)
  have same: "dsmr_last_good (processDataByte fw c) = dsmr_last_good fw"
    if "fst (dsmr_parse_byte (dsmr_parser fw) c) = 0"
    using that by (cases "dsmr_parse_byte (dsmr_parser fw) c") (simp add: processDataByte_def)
  have chg: "fst (dsmr_parse_byte (dsmr_parser fw) c) = 1 \<and> c = 10
             \<and> dsmr_last_good (processDataByte fw c) = data (snd (dsmr_parse_byte (dsmr_parser fw) c))
             \<and> frame_complete (dsmr_last_good (processDataByte fw c))"
    if "dsmr_last_good (processDataByte fw c) \<noteq> dsmr_last_good fw"
  proof -
    have r: "fst (dsmr_parse_byte (dsmr_parser fw) c) \<noteq> 0"
      using that same by blast
    then have "frame_active (dsmr_parser fw) \<and> c = 10
        \<and> frame_complete (data (snd (dsmr_parse_byte (dsmr_parser fw) c)))"
      by (subst (asm) parse_byte_result) (simp split: if_splits)
    then show ?thesis
      using that r parse_byte_result[of "dsmr_parser fw" c]
      by (cases "dsmr_parse_byte (dsmr_parser fw) c")
        (auto simp: processDataByte_def split: if_splits)
  qed
  have c1: "dsmr_last_good fw = zero_data \<or> frame_complete (dsmr_last_good fw)"
    using inv by (simp add: fw_inv_def)
  have c2: "dsmr_last_good (processDataByte fw c) = dsmr_last_good fw
          \<or> (fst (dsmr_parse_byte (dsmr_parser fw) c) = 1 \<and> c = 10
             \<and> dsmr_last_good (processDataByte fw c) = data (snd (dsmr_parse_byte (dsmr_parser fw) c))
             \<and> frame_complete (dsmr_last_good (processDataByte fw c))
             \<and> \<not> terminator_mismatch (dsmr_parser fw))"
    using chg mm by fastforce
  have c3: "terminator_mismatch (dsmr_parser fw) \<longrightarrow>
            fst (dsmr_parse_byte (dsmr_parser fw) c) = 0
            \<and> dsmr_last_good (processDataByte fw c) = dsmr_last_good fw"
    using mm same by blast
  show ?thesis
    using c1 c2 c3 by blast
qed

theorem last_good_only_on_frame_ready_witness:
  "terminator_mismatch (dsmr_parser (run_firmware firmware_boot bytes_bad_crc))
   \<and> fst (dsmr_parse_byte (dsmr_parser (run_firmware firmware_boot bytes_bad_crc)) 10) = 0
   \<and> dsmr_last_good (processDataByte (run_firmware firmware_boot bytes_bad_crc) 10)
        = dsmr_last_good (run_firmware firmware_boot bytes_bad_crc)"
proof -
  have m: "terminator_mismatch (dsmr_parser (run_firmware firmware_boot bytes_bad_crc))"
    by code_simp
  show ?thesis
    using last_good_only_on_frame_ready[of bytes_bad_crc 10] m by blast
qed

section \<open>Evaluating the checksum\<close>

text \<open>The CRC of given bytes, one shift at a time.\<close>

lemma crc16_bits_8:
  "crc16_bits 8 x = crc16_bits (Suc 0) (crc16_bits (Suc 0) (crc16_bits (Suc 0) (crc16_bits (Suc 0)
      (crc16_bits (Suc 0) (crc16_bits (Suc 0) (crc16_bits (Suc 0) (crc16_bits (Suc 0) x)))))))"
  by (simp add: eval_nat_numeral)

lemma crc16_bits_1:
  "crc16_bits (Suc 0) x = (if x AND 1 \<noteq> 0 then drop_bit 1 x XOR 0xA001 else drop_bit 1 x)"
  by simp

lemmas crc_eval = crc16_update_def crc16_bits_8 crc16_bits_1


section \<open>The parser, line by line\<close>

lemma feed_append:
  "feed p (xs @ ys) =
     (fst (feed p xs) @ fst (feed (snd (feed p xs)) ys), snd (feed (snd (feed p xs)) ys))"
  by (induction xs arbitrary: p) (simp_all add: split_beta)

lemma feed_single: "feed p [c] = ([fst (dsmr_parse_byte p c)], snd (dsmr_parse_byte p c))"
  by (simp add: split_beta)

lemma feed_Cons:
  "feed p (c # cs) =
     (fst (dsmr_parse_byte p c) # fst (feed (snd (dsmr_parse_byte p c)) cs),
      snd (feed (snd (dsmr_parse_byte p c)) cs))"
  by (simp add: split_beta)

text \<open>A byte other than the line feed, in a frame.\<close>

lemma in_frame_byte:
  assumes "frame_active p" "parser_inv p" "c \<noteq> 10"
  shows "fst (dsmr_parse_byte p c) = 0"
    and "frame_active (snd (dsmr_parse_byte p c))"
    and "data (snd (dsmr_parse_byte p c)) = data p"
    and "crc_of (snd (dsmr_parse_byte p c)) = crc_step (crc_of p) c"
    and "pending (snd (dsmr_parse_byte p c))
           = (if c = 13 then pending p else take 79 (pending p @ [c]))"
proof -
  have len: "length (line_buffer p) = 80" "line_index p \<le> 79"
    using assms(2) by (simp_all add: parser_inv_def)
  show "fst (dsmr_parse_byte p c) = 0"
    using assms by (simp add: dsmr_parse_byte_def Let_def)
  show "frame_active (snd (dsmr_parse_byte p c))"
    using assms by (simp add: dsmr_parse_byte_def Let_def)
  show "data (snd (dsmr_parse_byte p c)) = data p"
    using assms by (simp add: dsmr_parse_byte_def Let_def)
  show "crc_of (snd (dsmr_parse_byte p c)) = crc_step (crc_of p) c"
    using assms by (simp add: dsmr_parse_byte_def Let_def crc_of_def crc_step_def)
  show "pending (snd (dsmr_parse_byte p c))
           = (if c = 13 then pending p else take 79 (pending p @ [c]))"
  proof (cases "line_index p < 79")
    case True
    then show ?thesis
      using assms len
      by (simp add: dsmr_parse_byte_def Let_def pending_def take_Suc_conv_app_nth)
  next
    case False
    then have "line_index p = 79" using len by simp
    then show ?thesis
      using assms len
      by (simp add: dsmr_parse_byte_def Let_def pending_def)
  qed
qed

lemma take_take_append: "take n (take n xs @ ys) = take n (xs @ ys)"
  by (simp add: min_def)

text \<open>Bytes without a line feed, in a frame.\<close>

lemma in_frame_bytes:
  assumes "frame_active p" "parser_inv p" "10 \<notin> set bs"
  shows "fst (feed p bs) = replicate (length bs) 0
       \<and> frame_active (snd (feed p bs))
       \<and> parser_inv (snd (feed p bs))
       \<and> data (snd (feed p bs)) = data p
       \<and> crc_of (snd (feed p bs)) = crc_feed (crc_of p) bs
       \<and> pending (snd (feed p bs)) = take 79 (pending p @ filter (\<lambda>c. c \<noteq> 13) bs)"
  using assms
proof (induction bs arbitrary: p)
  case Nil
  have "length (pending p) \<le> 79"
    using Nil.prems(2) by (simp add: parser_inv_def pending_def)
  then show ?case using Nil.prems by (simp add: crc_feed_def)
next
  case (Cons c bs)
  let ?q = "snd (dsmr_parse_byte p c)"
  have c: "c \<noteq> 10" and bs: "10 \<notin> set bs"
    using Cons.prems(3) by auto
  note st = in_frame_byte[OF Cons.prems(1,2) c]
  have inv: "parser_inv ?q"
    by (rule parse_byte_inv[OF Cons.prems(2)])
  note ih = Cons.IH[OF st(2) inv bs]
  have pend: "take 79 (pending ?q @ filter (\<lambda>c. c \<noteq> 13) bs)
                = take 79 (pending p @ filter (\<lambda>c. c \<noteq> 13) (c # bs))"
  proof (cases "c = 13")
    case True
    then show ?thesis using st(5) by simp
  next
    case False
    then have "pending ?q = take 79 (pending p @ [c])"
      using st(5) by simp
    then have "take 79 (pending ?q @ filter (\<lambda>c. c \<noteq> 13) bs)
                 = take 79 ((pending p @ [c]) @ filter (\<lambda>c. c \<noteq> 13) bs)"
      by (simp only: take_take_append)
    then show ?thesis
      using False by (simp del: take_append)
  qed
  show ?case
    using ih st(1,3,4) pend
    by (simp add: feed_Cons crc_feed_def del: feed.simps)
qed

lemma process_line_data_indep:
  "data (process_line p l)
     = data (process_line (dsmr_parser_init\<lparr>data := data p, crc_calculated := crc_calculated p\<rparr>) l)"
  by (simp add: process_line_def Let_def split: option.splits)

lemma process_line_frame_active:
  "frame_active (process_line p l) = (frame_active p \<and> \<not> (l \<noteq> [] \<and> hd l = ch CHR ''!''))"
  by (auto simp: process_line_def Let_def split: option.splits)

text \<open>The line feed, in a frame.\<close>

lemma in_frame_lf:
  assumes "frame_active p" "parser_inv p"
  shows "data (snd (dsmr_parse_byte p 10))
           = data (process_line
                (dsmr_parser_init\<lparr>data := data p, crc_calculated := fst (crc_step (crc_of p) 10)\<rparr>)
                (c_str (pending p)))"
    and "fst (dsmr_parse_byte p 10)
           = (if frame_complete (data (snd (dsmr_parse_byte p 10))) then 1 else 0)"
    and "frame_active (snd (dsmr_parse_byte p 10))
           = (\<not> (c_str (pending p) \<noteq> [] \<and> hd (c_str (pending p)) = ch CHR ''!''))"
    and "crc_of (snd (dsmr_parse_byte p 10)) = crc_step (crc_of p) 10"
    and "pending (snd (dsmr_parse_byte p 10)) = []"
proof -
  have len: "line_index p < length (line_buffer p)"
    using assms(2) by (simp add: parser_inv_def)
  have line: "c_str ((line_buffer p)[line_index p := 0]) = c_str (pending p)"
    using len by (simp add: c_str_update_nul pending_def)
  define p1 where "p1 = (if \<not> crc_done p
               then p\<lparr>crc_calculated := crc16_update (crc_calculated p) 10,
                       crc_done := False\<rparr>
               else p)"
  define p2 where "p2 = p1\<lparr>line_buffer := (line_buffer p)[line_index p := 0]\<rparr>"
  have eq: "dsmr_parse_byte p 10 =
         (if frame_complete (data (process_line p2 (c_str (pending p)))) then 1 else 0,
          (process_line p2 (c_str (pending p)))\<lparr>line_index := 0\<rparr>)"
    using assms(1) line
    by (auto simp: dsmr_parse_byte_def Let_def p1_def p2_def)
  have k: "crc_calculated p2 = fst (crc_step (crc_of p) 10)" "data p2 = data p"
    "frame_active p2" "crc_done p2 = crc_done p"
    using assms(1) by (auto simp: p2_def p1_def crc_step_def crc_of_def)
  show "data (snd (dsmr_parse_byte p 10))
           = data (process_line
                (dsmr_parser_init\<lparr>data := data p, crc_calculated := fst (crc_step (crc_of p) 10)\<rparr>)
                (c_str (pending p)))"
    unfolding eq using process_line_data_indep[of p2] k by simp
  show "fst (dsmr_parse_byte p 10)
           = (if frame_complete (data (snd (dsmr_parse_byte p 10))) then 1 else 0)"
    unfolding eq by simp
  show "frame_active (snd (dsmr_parse_byte p 10))
           = (\<not> (c_str (pending p) \<noteq> [] \<and> hd (c_str (pending p)) = ch CHR ''!''))"
    unfolding eq using k by (simp add: process_line_frame_active del: of_char_Char)
  show "crc_of (snd (dsmr_parse_byte p 10)) = crc_step (crc_of p) 10"
    unfolding eq using k
    by (auto simp: crc_of_def process_line_parser_fields crc_step_def p2_def p1_def)
  show "pending (snd (dsmr_parse_byte p 10)) = []"
    unfolding eq by (simp add: pending_def)
qed

lemma process_line_data_no_crc:
  assumes "l = [] \<or> hd l \<noteq> ch CHR ''!''"
  shows "data (process_line p l) = data (process_line (dsmr_parser_init\<lparr>data := data p\<rparr>) l)"
proof (cases "l = []")
  case True
  then show ?thesis by (simp add: process_line_def dsmr_parser_init_def)
next
  case False
  then have "hd l \<noteq> ch CHR ''!''" using assms by simp
  then show ?thesis
    using False by (simp add: process_line_def Let_def split: option.splits)
qed



lemma idle_byte:
  assumes "\<not> frame_active p"
  shows "dsmr_parse_byte p c =
           (0, if is_frame_start c
               then p\<lparr>frame_active := True, crc_done := False,
                      crc_calculated := crc16_update 0 c, line_index := 1,
                      line_buffer := (line_buffer p)[0 := c]\<rparr>
               else p)"
  using assms by (simp add: dsmr_parse_byte_def is_frame_start_def)

lemma frame_start:
  assumes "\<not> frame_active p" "parser_inv p" "is_frame_start c"
  shows "fst (dsmr_parse_byte p c) = 0"
    and "frame_active (snd (dsmr_parse_byte p c))"
    and "data (snd (dsmr_parse_byte p c)) = data p"
    and "crc_of (snd (dsmr_parse_byte p c)) = (crc16_update 0 c, False)"
    and "pending (snd (dsmr_parse_byte p c)) = [c]"
proof -
  have "take (Suc 0) ((line_buffer p)[0 := c]) = [c]"
    using assms(2) by (cases "line_buffer p") (simp_all add: parser_inv_def)
  then show "pending (snd (dsmr_parse_byte p c)) = [c]"
    using assms(3) by (simp add: idle_byte[OF assms(1)] pending_def)
  show "fst (dsmr_parse_byte p c) = 0"
    by (simp add: idle_byte[OF assms(1)])
  show "frame_active (snd (dsmr_parse_byte p c))"
    using assms(3) by (simp add: idle_byte[OF assms(1)])
  show "data (snd (dsmr_parse_byte p c)) = data p"
    using assms(3) by (simp add: idle_byte[OF assms(1)])
  show "crc_of (snd (dsmr_parse_byte p c)) = (crc16_update 0 c, False)"
    using assms(3) by (simp add: idle_byte[OF assms(1)] crc_of_def)
qed

text \<open>A whole line, in a frame: bytes without a line feed, then the line feed.\<close>

lemma in_frame_line:
  assumes "frame_active p" "parser_inv p" "10 \<notin> set bs"
  defines "line \<equiv> c_str (take 79 (pending p @ filter (\<lambda>c. c \<noteq> 13) bs))"
    and "p' \<equiv> snd (feed p (bs @ [10]))"
  shows "data p' = data (process_line
            (dsmr_parser_init\<lparr>data := data p,
               crc_calculated := fst (crc_feed (crc_of p) (bs @ [10]))\<rparr>) line)"
    and "fst (feed p (bs @ [10]))
           = replicate (length bs) 0 @ [if frame_complete (data p') then 1 else 0]"
    and "frame_active p' = (\<not> (line \<noteq> [] \<and> hd line = ch CHR ''!''))"
    and "crc_of p' = crc_feed (crc_of p) (bs @ [10])"
    and "pending p' = []"
    and "parser_inv p'"
proof -
  let ?q = "snd (feed p bs)"
  have b: "fst (feed p bs) = replicate (length bs) 0" "frame_active ?q" "parser_inv ?q"
    "data ?q = data p" "crc_of ?q = crc_feed (crc_of p) bs"
    "pending ?q = take 79 (pending p @ filter (\<lambda>c. c \<noteq> 13) bs)"
    using in_frame_bytes[OF assms(1-3)] by simp_all
  have p': "p' = snd (dsmr_parse_byte ?q 10)"
    by (simp add: p'_def feed_append feed_single del: feed.simps)
  have k: "crc_step (crc_of ?q) 10 = crc_feed (crc_of p) (bs @ [10])"
    by (simp add: b(5) crc_feed_def)
  note lf = in_frame_lf[OF b(2,3)]
  show "data p' = data (process_line
            (dsmr_parser_init\<lparr>data := data p,
               crc_calculated := fst (crc_feed (crc_of p) (bs @ [10]))\<rparr>) line)"
    unfolding p' lf(1) k b(4) b(6) line_def ..
  show "fst (feed p (bs @ [10]))
           = replicate (length bs) 0 @ [if frame_complete (data p') then 1 else 0]"
    unfolding p' using lf(2) b(1) by (simp add: feed_append feed_single del: feed.simps)
  show "frame_active p' = (\<not> (line \<noteq> [] \<and> hd line = ch CHR ''!''))"
    unfolding p' lf(3) b(6) line_def ..
  show "crc_of p' = crc_feed (crc_of p) (bs @ [10])"
    unfolding p' lf(4) k ..
  show "pending p' = []"
    unfolding p' by (rule lf(5))
  show "parser_inv p'"
    unfolding p' by (rule parse_byte_inv[OF b(3)])
qed


text \<open>A line that is not a terminator line, in a frame.\<close>

lemma data_line:
  assumes "frame_active p" "parser_inv p" "10 \<notin> set bs"
    and "c_str (take 79 (pending p @ filter (\<lambda>c. c \<noteq> 13) bs)) = line"
    and "line = [] \<or> hd line \<noteq> ch CHR ''!''"
    and "data (process_line (dsmr_parser_init\<lparr>data := data p\<rparr>) line) = d"
    and "\<not> frame_complete d"
  shows "frame_active (snd (feed p (bs @ [10])))"
    and "parser_inv (snd (feed p (bs @ [10])))"
    and "pending (snd (feed p (bs @ [10]))) = []"
    and "data (snd (feed p (bs @ [10]))) = d"
    and "crc_of (snd (feed p (bs @ [10]))) = crc_feed (crc_of p) (bs @ [10])"
    and "fst (feed p (bs @ [10])) = replicate (length bs) 0 @ [0]"
proof -
  note g = in_frame_line[OF assms(1-3)]
  show d: "data (snd (feed p (bs @ [10]))) = d"
    unfolding g(1) assms(4)
    by (subst process_line_data_no_crc[OF assms(5)]) (simp add: assms(6))
  show "frame_active (snd (feed p (bs @ [10])))"
    unfolding g(3) assms(4) using assms(5) by simp
  show "parser_inv (snd (feed p (bs @ [10])))"
    by (rule g(6))
  show "pending (snd (feed p (bs @ [10]))) = []"
    by (rule g(5))
  show "crc_of (snd (feed p (bs @ [10]))) = crc_feed (crc_of p) (bs @ [10])"
    by (rule g(4))
  show "fst (feed p (bs @ [10])) = replicate (length bs) 0 @ [0]"
    unfolding g(2) d using assms(7) by simp
qed


section \<open>A slash in the middle of a frame\<close>

lemma process_line_bang_alone:
  "data (process_line q [ch CHR ''!'']) = (data q)\<lparr>frame_complete := True\<rparr>"
  by (simp add: process_line_def)

lemma stranded_line1:
  "data (process_line (dsmr_parser_init\<lparr>data := zero_data\<rparr>) (bytes_of ''/A''))
     = zero_data\<lparr>equipment_id := bytes_of ''/A'' @ replicate 31 0\<rparr>"
  by code_simp

lemma stranded_line2:
  "data (process_line
      (dsmr_parser_init\<lparr>data := zero_data\<lparr>equipment_id := bytes_of ''/A'' @ replicate 31 0\<rparr>\<rparr>)
      sample_l2)
     = zero_data\<lparr>equipment_id := bytes_of ''/A'' @ replicate 31 0, current_power := 424000\<rparr>"
  by code_simp

lemma stranded_line3:
  "data (process_line
      (dsmr_parser_init\<lparr>data := zero_data\<lparr>equipment_id := bytes_of ''/A'' @ replicate 31 0,
                                         current_power := 424000\<rparr>\<rparr>)
      (bytes_of ''/B''))
     = zero_data\<lparr>equipment_id := bytes_of ''/B'' @ replicate 31 0, current_power := 424000\<rparr>"
  by code_simp

lemma stranded_run:
  "fst (feed dsmr_parser_init stranded_stream) = replicate 32 0 @ [1]
   \<and> data (snd (feed dsmr_parser_init stranded_stream))
       = zero_data\<lparr>equipment_id := bytes_of ''/B'' @ replicate 31 0, current_power := 424000,
                    frame_complete := True\<rparr>"
proof -
  define c1 where "c1 = (bytes_of ''A'' @ [13]) @ [10]"
  define c2 where "c2 = (sample_l2 @ [13]) @ [10]"
  define c3 where "c3 = (bytes_of ''/B'' @ [13]) @ [10]"
  define c4 where "c4 = (bytes_of ''!'' @ [13]) @ [10]"
  define s1 where "s1 = snd (dsmr_parse_byte dsmr_parser_init 47)"
  define s2 where "s2 = snd (feed s1 c1)"
  define s3 where "s3 = snd (feed s2 c2)"
  define s4 where "s4 = snd (feed s3 c3)"
  define s5 where "s5 = snd (feed s4 c4)"
  define d1 where "d1 = zero_data\<lparr>equipment_id := bytes_of ''/A'' @ replicate 31 0\<rparr>"
  define d2 where "d2 = d1\<lparr>current_power := 424000\<rparr>"
  define d3 where "d3 = zero_data\<lparr>equipment_id := bytes_of ''/B'' @ replicate 31 0,
                                  current_power := 424000\<rparr>"
  have i0: "\<not> frame_active dsmr_parser_init" "parser_inv dsmr_parser_init" "is_frame_start 47"
    by (simp_all add: parser_init_inv is_frame_start_def) (simp add: dsmr_parser_init_def)
  note f1 = frame_start[OF i0, folded s1_def]
  have inv1: "parser_inv s1"
    unfolding s1_def by (rule parse_byte_inv[OF i0(2)])
  have dat1: "data s1 = zero_data"
    using f1(3) by (simp add: dsmr_parser_init_def)
  have nf: "\<not> frame_complete d1" "\<not> frame_complete d2" "\<not> frame_complete d3"
    by (simp_all add: d1_def d2_def d3_def zero_data_def)
  have a1: "10 \<notin> set (bytes_of ''A'' @ [13])"
    "c_str (take 79 (pending s1 @ filter (\<lambda>c. c \<noteq> 13) (bytes_of ''A'' @ [13])))
       = bytes_of ''/A''"
    "bytes_of ''/A'' = [] \<or> hd (bytes_of ''/A'') \<noteq> ch CHR ''!''"
    by (simp_all add: f1(5) bytes_of_def c_str_def)
  have b1: "data (process_line (dsmr_parser_init\<lparr>data := data s1\<rparr>) (bytes_of ''/A'')) = d1"
    unfolding dat1 d1_def by (rule stranded_line1)
  note h1 = data_line[OF f1(2) inv1 a1 b1 nf(1), folded c1_def, folded s2_def]
  have a2: "10 \<notin> set (sample_l2 @ [13])"
    "c_str (take 79 (pending s2 @ filter (\<lambda>c. c \<noteq> 13) (sample_l2 @ [13]))) = sample_l2"
    "sample_l2 = [] \<or> hd sample_l2 \<noteq> ch CHR ''!''"
    by (simp_all add: h1(3) sample_l2_def bytes_of_def c_str_def)
  have b2: "data (process_line (dsmr_parser_init\<lparr>data := data s2\<rparr>) sample_l2) = d2"
    unfolding h1(4) d2_def d1_def by (rule stranded_line2)
  note h2 = data_line[OF h1(1,2) a2 b2 nf(2), folded c2_def, folded s3_def]
  have a3: "10 \<notin> set (bytes_of ''/B'' @ [13])"
    "c_str (take 79 (pending s3 @ filter (\<lambda>c. c \<noteq> 13) (bytes_of ''/B'' @ [13])))
       = bytes_of ''/B''"
    "bytes_of ''/B'' = [] \<or> hd (bytes_of ''/B'') \<noteq> ch CHR ''!''"
    by (simp_all add: h2(3) bytes_of_def c_str_def)
  have b3: "data (process_line (dsmr_parser_init\<lparr>data := data s3\<rparr>) (bytes_of ''/B'')) = d3"
    unfolding h2(4) d3_def d2_def d1_def by (rule stranded_line3)
  note h3 = data_line[OF h2(1,2) a3 b3 nf(3), folded c3_def, folded s4_def]
  have r: "fst (feed s1 c1) = replicate 3 0" "fst (feed s2 c2) = replicate 22 0"
    "fst (feed s3 c3) = replicate 4 0"
    unfolding h1(6) h2(6) h3(6) sample_l2_def bytes_of_def by code_simp+
  have nolf: "10 \<notin> set (bytes_of ''!'' @ [13])"
    by (simp add: bytes_of_def)
  note g4 = in_frame_line[OF h3(1,2) nolf, folded c4_def, folded s5_def]
  have line4: "c_str (take 79 (pending s4 @ filter (\<lambda>c. c \<noteq> 13) (bytes_of ''!'' @ [13])))
                 = [ch CHR ''!'']"
    by (simp add: h3(3) bytes_of_def c_str_def)
  have dat5: "data s5 = d3\<lparr>frame_complete := True\<rparr>"
    unfolding g4(1) line4 process_line_bang_alone by (simp add: h3(4))
  have ret5: "fst (feed s4 c4) = [0, 0, 1]"
    unfolding g4(2) dat5 by (simp add: bytes_of_def)
  have sts: "snd (feed s1 c1) = s2" "snd (feed s2 c2) = s3" "snd (feed s3 c3) = s4"
    "snd (feed s4 c4) = s5"
    by (simp_all only: s2_def s3_def s4_def s5_def)
  have "stranded_stream = 47 # c1 @ c2 @ c3 @ c4"
    by (simp add: stranded_stream_def c1_def c2_def c3_def c4_def bytes_of_def)
  then have "feed dsmr_parser_init stranded_stream = feed dsmr_parser_init (47 # c1 @ c2 @ c3 @ c4)"
    by (simp only:)
  also have "\<dots> = (0 # replicate 3 0 @ replicate 22 0 @ replicate 4 0
               @ [0, 0, 1], s5)"
    by (simp only: feed_Cons feed_append f1(1) s1_def[symmetric] r ret5 sts
        fst_conv snd_conv)
  finally have run: "feed dsmr_parser_init stranded_stream
      = (0 # replicate 3 0 @ replicate 22 0 @ replicate 4 0
               @ [0, 0, 1], s5)" .
  have "0 # replicate 3 0 @ replicate 22 0 @ replicate 4 0
               @ [0, 0, 1] = replicate 32 (0::nat) @ [1]"
    by code_simp
  then show ?thesis
    using dat5 by (simp add: run d3_def)
qed


text \<open>
  C4, as the code has it. The frame start is looked for only while no frame is active.
  In a frame a \<open>/\<close> is a byte like any other: it is hashed into the CRC as long as the
  CRC is open and appended to the current line if there is room, the working record
  stays, and 0 is returned. Outside a frame it starts one: the line begins with it, the
  CRC is opened and seeded with it.
\<close>

theorem slash_byte_effect:
  "dsmr_parse_byte parser (ch CHR ''/'') =
     (0, if frame_active parser then
           parser\<lparr>crc_calculated :=
                     (if crc_done parser then crc_calculated parser
                      else crc16_update (crc_calculated parser) (ch CHR ''/'')),
                  line_buffer :=
                     (if line_index parser < 79
                      then (line_buffer parser)[line_index parser := ch CHR ''/'']
                      else line_buffer parser),
                  line_index :=
                     (if line_index parser < 79 then line_index parser + 1
                      else line_index parser)\<rparr>
         else
           parser\<lparr>frame_active := True, crc_done := False,
                  crc_calculated := crc16_update 0 (ch CHR ''/''),
                  line_index := 1,
                  line_buffer := (line_buffer parser)[0 := ch CHR ''/'']\<rparr>)"
  by (simp add: dsmr_parse_byte_def Let_def)


text \<open>C4 as the claim states it fails: after \<open>/A\<close> the parser is in a frame, and a
  \<open>/\<close> then neither empties the line (it becomes its third character) nor re-seeds the
  CRC (the CRC of \<open>/A/\<close> is not the CRC of \<open>/\<close>). Nor is the partial frame
  abandoned when the \<open>/\<close> opens a line: in \<^const>\<open>stranded_stream\<close> the power read in the
  frame that was cut short is in the record of the frame that completes.\<close>

theorem slash_mid_frame_no_resync:
  "frame_active parser_mid_line \<and> line_index parser_mid_line = 2
   \<and> line_index (snd (dsmr_parse_byte parser_mid_line (ch CHR ''/''))) = 3
   \<and> pending (snd (dsmr_parse_byte parser_mid_line (ch CHR ''/''))) = bytes_of ''/A/''
   \<and> crc_calculated (snd (dsmr_parse_byte parser_mid_line (ch CHR ''/''))) = 0x4540
   \<and> crc16_update 0 (ch CHR ''/'') = 0xDC41
   \<and> fst (feed dsmr_parser_init stranded_stream) = replicate 32 0 @ [1]
   \<and> frame_complete (data (snd (feed dsmr_parser_init stranded_stream)))
   \<and> c_str (equipment_id (data (snd (feed dsmr_parser_init stranded_stream)))) = bytes_of ''/B''
   \<and> current_power (data (snd (feed dsmr_parser_init stranded_stream))) = 424000"
proof -
  have byte: "frame_active parser_mid_line \<and> line_index parser_mid_line = 2
      \<and> line_index (snd (dsmr_parse_byte parser_mid_line (ch CHR ''/''))) = 3
      \<and> pending (snd (dsmr_parse_byte parser_mid_line (ch CHR ''/''))) = bytes_of ''/A/''
      \<and> crc_calculated (snd (dsmr_parse_byte parser_mid_line (ch CHR ''/''))) = 0x4540
      \<and> crc16_update 0 (ch CHR ''/'') = 0xDC41"
    by code_simp
  have line: "fst (feed dsmr_parser_init stranded_stream) = replicate 32 0 @ [1]
      \<and> frame_complete (data (snd (feed dsmr_parser_init stranded_stream)))
      \<and> c_str (equipment_id (data (snd (feed dsmr_parser_init stranded_stream)))) = bytes_of ''/B''
      \<and> current_power (data (snd (feed dsmr_parser_init stranded_stream))) = 424000"
    by (simp add: stranded_run c_str_def bytes_of_def)
  from byte line show ?thesis
    by (simp only: simp_thms)
qed

section \<open>The end-to-end sample\<close>

lemma sample_line1:
  "data (process_line (dsmr_parser_init\<lparr>data := zero_data\<rparr>) sample_l1)
     = zero_data\<lparr>equipment_id := sample_l1 @ replicate 16 0\<rparr>"
  by code_simp

lemma sample_line2:
  "data (process_line
      (dsmr_parser_init\<lparr>data := zero_data\<lparr>equipment_id := sample_l1 @ replicate 16 0\<rparr>\<rparr>)
      sample_l2)
     = zero_data\<lparr>equipment_id := sample_l1 @ replicate 16 0, current_power := 424000\<rparr>"
  by code_simp

lemma sample_line3:
  "data (process_line
      (dsmr_parser_init\<lparr>data := zero_data\<lparr>equipment_id := sample_l1 @ replicate 16 0,
                                         current_power := 424000\<rparr>\<rparr>)
      sample_l3)
     = zero_data\<lparr>equipment_id := sample_l1 @ replicate 16 0, current_power := 424000\<rparr>"
  by code_simp

lemma sample_line4:
  "data (process_line
      (dsmr_parser_init\<lparr>data := zero_data\<lparr>equipment_id := sample_l1 @ replicate 16 0,
                                         current_power := 424000\<rparr>,
                        crc_calculated := 0x383D\<rparr>)
      (bytes_of ''!383D''))
     = sample_record"
  by code_simp

lemma crc_body: "crc16 sample_body = 0x383D"
  by (simp add: crc16_def sample_body_def sample_l1_def sample_l2_def sample_l3_def bytes_of_def
      crc_eval del: crc16_bits.simps)

text \<open>The run of the parser over the sample, line by line.\<close>

lemma sample_run:
  "fst (feed dsmr_parser_init sample_telegram) = replicate 69 0 @ [1]
   \<and> data (snd (feed dsmr_parser_init sample_telegram)) = sample_record"
proof -
  define r1 where "r1 = bytes_of ''ISk5'' @ [0x5C] @ bytes_of ''2MT382-1000'' @ [13]"
  define r2 where "r2 = sample_l2 @ [13]"
  define r3 where "r3 = sample_l3 @ [13]"
  define r4 where "r4 = bytes_of ''!383D'' @ [13]"
  define s1 where "s1 = snd (dsmr_parse_byte dsmr_parser_init 47)"
  define s2 where "s2 = snd (feed s1 (r1 @ [10]))"
  define s3 where "s3 = snd (feed s2 (r2 @ [10]))"
  define s4 where "s4 = snd (feed s3 (r3 @ [10]))"
  define s5 where "s5 = snd (feed s4 (r4 @ [10]))"
  define d1 where "d1 = zero_data\<lparr>equipment_id := sample_l1 @ replicate 16 0\<rparr>"
  define d2 where "d2 = d1\<lparr>current_power := 424000\<rparr>"
  have tele: "sample_telegram = 47 # (r1 @ [10]) @ (r2 @ [10]) @ (r3 @ [10]) @ (r4 @ [10])"
    by (simp add: sample_telegram_def sample_body_def sample_l1_def r1_def r2_def r3_def r4_def
        bytes_of_def)
  have nolf: "10 \<notin> set r1" "10 \<notin> set r2" "10 \<notin> set r3" "10 \<notin> set r4"
    by (simp_all add: r1_def r2_def r3_def r4_def sample_l2_def sample_l3_def bytes_of_def)
  have len: "length r1 = 17" "length r2 = 21" "length r3 = 21" "length r4 = 6"
    by (simp_all add: r1_def r2_def r3_def r4_def sample_l2_def sample_l3_def bytes_of_def)
  have i0: "\<not> frame_active dsmr_parser_init" "parser_inv dsmr_parser_init" "is_frame_start 47"
    by (simp_all add: parser_init_inv is_frame_start_def) (simp add: dsmr_parser_init_def)
  note f1 = frame_start[OF i0, folded s1_def]
  have inv1: "parser_inv s1"
    unfolding s1_def by (rule parse_byte_inv[OF i0(2)])
  have dat1: "data s1 = zero_data"
    using f1(3) by (simp add: dsmr_parser_init_def)
  \<comment> \<open>the identification line\<close>
  note g1 = in_frame_line[OF f1(2) inv1 nolf(1), folded s2_def]
  have line1: "c_str (take 79 (pending s1 @ filter (\<lambda>c. c \<noteq> 13) r1)) = sample_l1"
    by (simp add: f1(5) r1_def sample_l1_def bytes_of_def c_str_def)
  have nb1: "sample_l1 = [] \<or> hd sample_l1 \<noteq> ch CHR ''!''"
    by (simp add: sample_l1_def bytes_of_def)
  have dat2: "data s2 = d1"
    unfolding g1(1) line1 d1_def
    by (subst process_line_data_no_crc[OF nb1]) (simp add: dat1 sample_line1)
  have act2: "frame_active s2"
    unfolding g1(3) line1 using nb1 by simp
  \<comment> \<open>the two data lines\<close>
  note g2 = in_frame_line[OF act2 g1(6) nolf(2), folded s3_def]
  have line2: "c_str (take 79 (pending s2 @ filter (\<lambda>c. c \<noteq> 13) r2)) = sample_l2"
    by (simp add: g1(5) r2_def sample_l2_def bytes_of_def c_str_def)
  have nb2: "sample_l2 = [] \<or> hd sample_l2 \<noteq> ch CHR ''!''"
    by (simp add: sample_l2_def bytes_of_def)
  have dat3: "data s3 = d2"
    unfolding g2(1) line2 d2_def d1_def
    by (subst process_line_data_no_crc[OF nb2]) (simp add: dat2 d1_def sample_line2)
  have act3: "frame_active s3"
    unfolding g2(3) line2 using nb2 by simp
  note g3 = in_frame_line[OF act3 g2(6) nolf(3), folded s4_def]
  have line3: "c_str (take 79 (pending s3 @ filter (\<lambda>c. c \<noteq> 13) r3)) = sample_l3"
    by (simp add: g2(5) r3_def sample_l3_def bytes_of_def c_str_def)
  have nb3: "sample_l3 = [] \<or> hd sample_l3 \<noteq> ch CHR ''!''"
    by (simp add: sample_l3_def bytes_of_def)
  have dat4: "data s4 = d2"
    unfolding g3(1) line3 d2_def d1_def
    by (subst process_line_data_no_crc[OF nb3]) (simp add: dat3 d2_def d1_def sample_line3)
  have act4: "frame_active s4"
    unfolding g3(3) line3 using nb3 by simp
  \<comment> \<open>the terminator line\<close>
  note g4 = in_frame_line[OF act4 g3(6) nolf(4), folded s5_def]
  have line4: "c_str (take 79 (pending s4 @ filter (\<lambda>c. c \<noteq> 13) r4)) = bytes_of ''!383D''"
    by (simp add: g3(5) r4_def bytes_of_def c_str_def)
  have crc: "crc_feed (crc_of s4) (r4 @ [10]) = (0x383D, True)"
    unfolding g3(4) g2(4) g1(4) f1(4)
    by (simp add: crc_feed_def crc_step_def r1_def r2_def r3_def r4_def sample_l2_def
        sample_l3_def bytes_of_def crc_eval del: crc16_bits.simps)
  have dat5: "data s5 = sample_record"
    unfolding g4(1) line4 crc dat4 d2_def d1_def by (simp add: sample_line4)
  have fc: "\<not> frame_complete d1" "\<not> frame_complete d2" "frame_complete sample_record"
    by (simp_all add: d1_def d2_def sample_record_def zero_data_def)
  define c1 where "c1 = r1 @ [10]"
  define c2 where "c2 = r2 @ [10]"
  define c3 where "c3 = r3 @ [10]"
  define c4 where "c4 = r4 @ [10]"
  have rets: "fst (feed s1 c1) = replicate 17 0 @ [0]" "fst (feed s2 c2) = replicate 21 0 @ [0]"
    "fst (feed s3 c3) = replicate 21 0 @ [0]" "fst (feed s4 c4) = replicate 6 0 @ [1]"
    using g1(2) g2(2) g3(2) g4(2) dat2 dat3 dat4 dat5 fc len
    by (simp_all add: c1_def c2_def c3_def c4_def del: feed.simps)
  have sts: "snd (feed s1 c1) = s2" "snd (feed s2 c2) = s3" "snd (feed s3 c3) = s4"
    "snd (feed s4 c4) = s5"
    by (simp_all only: s2_def s3_def s4_def s5_def c1_def c2_def c3_def c4_def)
  have "feed dsmr_parser_init sample_telegram = feed dsmr_parser_init (47 # c1 @ c2 @ c3 @ c4)"
    by (simp only: tele c1_def c2_def c3_def c4_def)
  also have "\<dots> = (0 # (replicate 17 0 @ [0]) @ (replicate 21 0 @ [0]) @ (replicate 21 0 @ [0])
               @ (replicate 6 0 @ [1]), s5)"
    by (simp only: feed_Cons feed_append f1(1) s1_def[symmetric] rets sts fst_conv snd_conv)
  finally have run: "feed dsmr_parser_init sample_telegram
      = (0 # (replicate 17 0 @ [0]) @ (replicate 21 0 @ [0]) @ (replicate 21 0 @ [0])
               @ (replicate 6 0 @ [1]), s5)" .
  have "0 # (replicate 17 0 @ [0]) @ (replicate 21 0 @ [0]) @ (replicate 21 0 @ [0])
               @ (replicate 6 0 @ [1]) = replicate 69 (0::nat) @ [1]"
    by code_simp
  then show ?thesis
    using dat5 by (simp only: run fst_conv snd_conv simp_thms)
qed


text \<open>
  C1, as the code has it. Feeding the sample telegram (an identification line, two data
  lines, \<open>!\<close> and the four hexadecimal digits \<open>383D\<close> of the CRC of all bytes from the
  \<open>/\<close> through the \<open>!\<close>, every line closed by CR LF) to a freshly initialised parser,
  \<open>dsmr_parse_byte\<close> returns 0 on each of the first 69 bytes and 1 on the last one, the
  final line feed; then \<open>current_power\<close> is 424000, \<open>current_return\<close> is 0, and the
  equipment identifier is the whole identification line, with its leading \<open>/\<close>.
\<close>

theorem sample_telegram_frame_ready:
  "sample_telegram = sample_body @ bytes_of ''383D'' @ [13, 10]
   \<and> crc16 sample_body = 0x383D
   \<and> length sample_telegram = 70
   \<and> fst (feed dsmr_parser_init sample_telegram) = replicate 69 0 @ [1]
   \<and> current_power (data (snd (feed dsmr_parser_init sample_telegram))) = 424000
   \<and> current_return (data (snd (feed dsmr_parser_init sample_telegram))) = 0
   \<and> c_str (equipment_id (data (snd (feed dsmr_parser_init sample_telegram))))
        = bytes_of ''/ISk5'' @ [0x5C] @ bytes_of ''2MT382-1000''"
proof -
  have "length sample_telegram = 70"
    by (simp add: sample_telegram_def sample_body_def sample_l1_def sample_l2_def
        sample_l3_def bytes_of_def)
  moreover have "c_str (equipment_id sample_record)
      = bytes_of ''/ISk5'' @ [0x5C] @ bytes_of ''2MT382-1000''"
    by (simp add: sample_record_def sample_l1_def bytes_of_def c_str_def)
  moreover have "current_power sample_record = 424000" "current_return sample_record = 0"
    by (simp_all add: sample_record_def zero_data_def)
  ultimately show ?thesis
    using sample_run crc_body by (simp add: sample_telegram_def)
qed

text \<open>C1 as the claim states it fails in its last part: the equipment identifier is not
  the identification line without its \<open>/\<close>.\<close>

theorem sample_equipment_id_keeps_slash:
  "c_str (equipment_id (data (snd (feed dsmr_parser_init sample_telegram))))
     \<noteq> bytes_of ''ISk5'' @ [0x5C] @ bytes_of ''2MT382-1000''"
proof -
  have "c_str (equipment_id sample_record) \<noteq> bytes_of ''ISk5'' @ [0x5C] @ bytes_of ''2MT382-1000''"
    by (simp add: sample_record_def sample_l1_def bytes_of_def c_str_def)
  then show ?thesis
    using sample_run by simp
qed

section \<open>The checksum\<close>

text \<open>One shift of the CRC register can be undone, so \<open>crc16_update\<close> is injective in the
  register and in the byte.\<close>

lemma x_and_1: "(x :: 16 word) AND 1 \<noteq> 0 \<longleftrightarrow> bit x 0"
  by (simp add: and_one_eq bit_0 even_iff_mod_2_eq_zero)

lemma top_bit_shift: "\<not> bit (drop_bit 1 (x :: 16 word)) 15"
  by (auto simp: bit_drop_bit_eq dest: bit_imp_le_length)

lemma top_bit_poly: "bit (0xA001 :: 16 word) 15"
  by simp

lemma step_top: "bit (crc16_bits (Suc 0) x) 15 = bit x 0"
  using top_bit_shift[of x] top_bit_poly
  by (simp add: x_and_1 bit_xor_iff del: bit_0)

lemma step_inj:
  assumes "crc16_bits (Suc 0) x = crc16_bits (Suc 0) y"
  shows "x = y"
proof -
  have b0: "bit x 0 = bit y 0"
    using assms step_top by metis
  have xc: "a = b" if "a XOR c = b XOR c" for a b c :: "16 word"
  proof -
    have "(a XOR c) XOR c = (b XOR c) XOR c" using that by simp
    then show ?thesis by (simp add: xor.assoc)
  qed
  have d: "drop_bit 1 x = drop_bit 1 y"
  proof (cases "bit x 0")
    case True
    then have "drop_bit 1 x XOR 0xA001 = drop_bit 1 y XOR 0xA001"
      using assms b0 by (simp add: x_and_1 del: bit_0)
    then show ?thesis by (rule xc)
  next
    case False
    then show ?thesis
      using assms b0 by (simp add: x_and_1 del: bit_0)
  qed
  show ?thesis
  proof (rule bit_word_eqI)
    fix n assume "n < LENGTH(16)"
    show "bit x n = bit y n"
    proof (cases n)
      case 0
      then show ?thesis using b0 by simp
    next
      case (Suc m)
      have "bit x (Suc m) = bit (drop_bit 1 x) m" "bit y (Suc m) = bit (drop_bit 1 y) m"
        by (simp_all add: bit_drop_bit_eq)
      then show ?thesis using d Suc by simp
    qed
  qed
qed

lemma bits_inj: "crc16_bits n x = crc16_bits n y \<Longrightarrow> x = y"
proof (induction n arbitrary: x y)
  case 0
  then show ?case by simp
next
  case (Suc n)
  have "crc16_bits (Suc n) x = crc16_bits n (crc16_bits (Suc 0) x)" for x
    by simp
  then have "crc16_bits (Suc 0) x = crc16_bits (Suc 0) y"
    using Suc.prems Suc.IH by metis
  then show ?case by (rule step_inj)
qed

lemma ucast_byte_inj:
  assumes "(ucast (a :: byte) :: 16 word) = ucast b"
  shows "a = b"
proof (rule bit_word_eqI)
  fix n assume "n < LENGTH(8)"
  then have "bit (ucast a :: 16 word) n = bit a n" "bit (ucast b :: 16 word) n = bit b n"
    by (simp_all add: bit_ucast_iff)
  with assms show "bit a n = bit b n" by simp
qed

lemma xor_cancel_right: "a XOR c = b XOR c \<Longrightarrow> a = b" for a b c :: "16 word"
proof -
  assume "a XOR c = b XOR c"
  then have "(a XOR c) XOR c = (b XOR c) XOR c" by simp
  then show ?thesis by (simp add: xor.assoc)
qed

lemma xor_cancel_left: "c XOR a = c XOR b \<Longrightarrow> a = b" for a b c :: "16 word"
  using xor_cancel_right[of a c b] by (simp add: xor.commute)

lemma crc16_update_inj_crc: "crc16_update a c = crc16_update b c \<Longrightarrow> a = b"
  unfolding crc16_update_def by (drule bits_inj) (rule xor_cancel_right)

lemma crc16_update_inj_byte: "crc16_update a c = crc16_update a d \<Longrightarrow> c = d"
  unfolding crc16_update_def by (drule bits_inj) (drule xor_cancel_left, rule ucast_byte_inj)

lemma crc_fold_inj: "foldl crc16_update a bs = foldl crc16_update b bs \<Longrightarrow> a = b"
proof (induction bs arbitrary: a b)
  case Nil
  then show ?case by simp
next
  case (Cons c bs)
  then have "crc16_update a c = crc16_update b c" by simp
  then show ?case by (rule crc16_update_inj_crc)
qed

lemma crc16_one_byte:
  assumes "crc16 (pre @ c # suf) = crc16 (pre @ d # suf)"
  shows "c = d"
proof -
  have "foldl crc16_update (crc16_update (crc16 pre) c) suf
          = foldl crc16_update (crc16_update (crc16 pre) d) suf"
    using assms by (simp add: crc16_def)
  then have "crc16_update (crc16 pre) c = crc16_update (crc16 pre) d"
    by (rule crc_fold_inj)
  then show ?thesis by (rule crc16_update_inj_byte)
qed

lemma c_str_hd_in: "c_str xs \<noteq> [] \<Longrightarrow> hd (c_str xs) \<in> set xs"
  using set_c_str[of xs] by (metis hd_in_set subsetD)

lemma quiet_line:
  assumes "quiet p"
  shows "c_str (pending p) = [] \<or> hd (c_str (pending p)) \<noteq> ch CHR ''!''"
  using assms c_str_hd_in[of "pending p"] by (auto simp: quiet_def)

text \<open>A byte other than \<open>!\<close> neither completes a frame nor brings \<open>!\<close> into the line.\<close>

lemma quiet_step:
  assumes "quiet p" "c \<noteq> ch CHR ''!''"
  shows "quiet (snd (dsmr_parse_byte p c))" and "fst (dsmr_parse_byte p c) = 0"
proof -
  have inv: "parser_inv p" and nf: "\<not> frame_complete (data p)"
    and nb: "ch CHR ''!'' \<notin> set (pending p)"
    using assms(1) by (simp_all add: quiet_def)
  have inv': "parser_inv (snd (dsmr_parse_byte p c))"
    by (rule parse_byte_inv[OF inv])
  have "quiet (snd (dsmr_parse_byte p c)) \<and> fst (dsmr_parse_byte p c) = 0"
  proof (cases "frame_active p")
    case False
    have "take (Suc 0) ((line_buffer p)[0 := c]) = [c]"
      using inv by (cases "line_buffer p") (simp_all add: parser_inv_def)
    then show ?thesis
      using inv' nf nb assms(2)
      by (simp add: idle_byte[OF False] quiet_def pending_def)
  next
    case True
    show ?thesis
    proof (cases "c = 10")
      case False
      note st = in_frame_byte[OF True inv False]
      have "set (take 79 (pending p @ [c])) \<subseteq> insert c (set (pending p))"
        using set_take_subset[of 79 "pending p @ [c]"] by auto
      then have "ch CHR ''!'' \<notin> set (pending (snd (dsmr_parse_byte p c)))"
        using nb assms(2) st(5) by (auto simp del: of_char_Char)
      then show ?thesis
        using inv' nf st(1,3) by (simp add: quiet_def)
    next
      case lf: True
      note st = in_frame_lf[OF True inv]
      have "\<not> frame_complete (data (snd (dsmr_parse_byte p 10)))"
        unfolding st(1) using process_line_not_bang(1)[OF quiet_line[OF assms(1)]] nf
        by simp
      then show ?thesis
        using inv' st(2,5) lf by (simp add: quiet_def)
    qed
  qed
  then show "quiet (snd (dsmr_parse_byte p c))" and "fst (dsmr_parse_byte p c) = 0"
    by simp_all
qed

lemma quiet_feed:
  assumes "quiet p" "ch CHR ''!'' \<notin> set bs"
  shows "quiet (snd (feed p bs))"
  using assms
proof (induction bs arbitrary: p)
  case Nil
  then show ?case by simp
next
  case (Cons c bs)
  then have "quiet (snd (dsmr_parse_byte p c))"
    using quiet_step(1)[of p c] by simp
  then show ?case
    using Cons by (simp add: feed_Cons del: feed.simps)
qed

lemma quiet_init: "quiet dsmr_parser_init"
  using parser_init_inv
  by (simp add: quiet_def) (simp add: dsmr_parser_init_def zero_data_def pending_def)

lemma open_frame_step:
  assumes "open_frame p k" "c \<noteq> ch CHR ''!''"
  shows "open_frame (snd (dsmr_parse_byte p c)) (crc16_update k c)"
proof -
  have q: "quiet p" and act: "frame_active p" and crc: "crc_of p = (k, False)"
    using assms(1) by (simp_all add: open_frame_def)
  have inv: "parser_inv p"
    using q by (simp add: quiet_def)
  have q': "quiet (snd (dsmr_parse_byte p c))"
    by (rule quiet_step(1)[OF q assms(2)])
  have step: "crc_step (k, False) c = (crc16_update k c, False)"
    using assms(2) by (simp add: crc_step_def)
  show ?thesis
  proof (cases "c = 10")
    case False
    note st = in_frame_byte[OF act inv False]
    show ?thesis
      using q' st(2) st(4) crc step by (simp add: open_frame_def)
  next
    case True
    note st = in_frame_lf[OF act inv]
    have "frame_active (snd (dsmr_parse_byte p 10))"
      unfolding st(3) using quiet_line[OF q] by blast
    then show ?thesis
      using q' st(4) crc step True by (simp add: open_frame_def)
  qed
qed

lemma open_frame_feed:
  assumes "open_frame p k" "ch CHR ''!'' \<notin> set bs"
  shows "open_frame (snd (feed p bs)) (foldl crc16_update k bs)"
  using assms
proof (induction bs arbitrary: p k)
  case Nil
  then show ?case by simp
next
  case (Cons c bs)
  then have "open_frame (snd (dsmr_parse_byte p c)) (crc16_update k c)"
    using open_frame_step[of p k c] by simp
  then show ?case
    using Cons by (simp add: feed_Cons del: feed.simps)
qed

lemma open_frame_start:
  assumes "quiet p" "\<not> frame_active p" "is_frame_start c"
  shows "open_frame (snd (dsmr_parse_byte p c)) (crc16_update 0 c)"
proof -
  have inv: "parser_inv p"
    using assms(1) by (simp add: quiet_def)
  have nb: "c \<noteq> ch CHR ''!''"
    using assms(3) by (auto simp: is_frame_start_def)
  note st = frame_start[OF assms(2) inv assms(3)]
  show ?thesis
    using quiet_step(1)[OF assms(1) nb] st(2,4) by (simp add: open_frame_def)
qed

text \<open>After a line feed the line is empty.\<close>

lemma open_frame_after_lf:
  assumes "open_frame p k" "ch CHR ''!'' \<notin> set bs"
  shows "pending (snd (feed p (bs @ [10]))) = []"
proof -
  have o: "open_frame (snd (feed p bs)) (foldl crc16_update k bs)"
    by (rule open_frame_feed[OF assms])
  then have "frame_active (snd (feed p bs))" "parser_inv (snd (feed p bs))"
    by (simp_all add: open_frame_def quiet_def)
  then show ?thesis
    using in_frame_lf(5) by (simp add: feed_append feed_single del: feed.simps)
qed

lemma crc_feed_closed: "crc_feed (k, True) bs = (k, True)"
  unfolding crc_feed_def by (induction bs) (simp_all add: crc_step_def)

lemma hex_digit_plain:
  assumes "hex_digit c = Some d"
  shows "c \<noteq> 0" "c \<noteq> 10" "c \<noteq> 13" "c \<noteq> ch CHR ''!''"
  using assms unfolding hex_digit_def
  by (auto split: if_splits)

lemma process_line_bang_hex:
  assumes "hex_digit h1 = Some d1" "hex_digit h2 = Some d2"
    "hex_digit h3 = Some d3" "hex_digit h4 = Some d4"
  shows "frame_complete (data (process_line q (ch CHR ''!'' # [h1, h2, h3, h4])))
           \<longleftrightarrow> frame_complete (data q)
               \<or> (word_of_int (((d1 * 16 + d2) * 16 + d3) * 16 + d4) :: 16 word) = crc_calculated q"
  using strtol16_hex4[OF assms]
  by (simp add: process_line_def Let_def)

lemma terminator_outcome:
  assumes o: "open_frame p k"
    and hex: "hex_digit h1 = Some d1" "hex_digit h2 = Some d2"
      "hex_digit h3 = Some d3" "hex_digit h4 = Some d4"
  shows "frame_complete (data (snd (feed p (ch CHR ''!'' # [h1, h2, h3, h4] @ [13, 10]))))
           \<longleftrightarrow> pending p = []
               \<and> (word_of_int (((d1 * 16 + d2) * 16 + d3) * 16 + d4) :: 16 word)
                    = crc16_update k (ch CHR ''!'')"
proof -
  define bs where "bs = ch CHR ''!'' # [h1, h2, h3, h4] @ [13]"
  have q: "quiet p" and act: "frame_active p" and crc: "crc_of p = (k, False)"
    using o by (simp_all add: open_frame_def)
  have inv: "parser_inv p" and nf: "\<not> frame_complete (data p)"
    and nb: "ch CHR ''!'' \<notin> set (pending p)"
    using q by (simp_all add: quiet_def)
  note hp = hex_digit_plain[OF hex(1)] hex_digit_plain[OF hex(2)]
    hex_digit_plain[OF hex(3)] hex_digit_plain[OF hex(4)]
  have nolf: "10 \<notin> set bs"
    using hp by (simp add: bs_def)
  have whole: "ch CHR ''!'' # [h1, h2, h3, h4] @ [13, 10] = bs @ [10]"
    by (simp add: bs_def)
  have filt: "filter (\<lambda>c. c \<noteq> 13) bs = ch CHR ''!'' # [h1, h2, h3, h4]"
    using hp by (simp add: bs_def)
  have k': "fst (crc_feed (crc_of p) (bs @ [10])) = crc16_update k (ch CHR ''!'')"
  proof -
    have "crc_feed (crc_of p) (bs @ [10])
            = crc_feed (crc16_update k (ch CHR ''!''), True) ([h1, h2, h3, h4] @ [13, 10])"
      by (simp add: crc crc_feed_def crc_step_def bs_def)
    then show ?thesis by (simp only: crc_feed_closed fst_conv)
  qed
  note ln = in_frame_line[OF act inv nolf]
  let ?line = "c_str (take 79 (pending p @ ch CHR ''!'' # [h1, h2, h3, h4]))"
  have dat: "data (snd (feed p (bs @ [10])))
      = data (process_line
           (dsmr_parser_init\<lparr>data := data p, crc_calculated := crc16_update k (ch CHR ''!'')\<rparr>)
           ?line)"
    using ln(1) by (simp only: k' filt)
  show ?thesis
  proof (cases "pending p")
    case Nil
    have "?line = ch CHR ''!'' # [h1, h2, h3, h4]"
      using hp by (simp add: Nil c_str_def)
    then show ?thesis
      unfolding whole dat
      using process_line_bang_hex[OF hex,
          of "dsmr_parser_init\<lparr>data := data p, crc_calculated := crc16_update k (ch CHR ''!'')\<rparr>"]
        nf Nil
      by simp
  next
    case (Cons f fs)
    have f: "f \<noteq> ch CHR ''!''"
      using nb Cons by auto
    have "?line = [] \<or> hd ?line = f"
      by (simp add: Cons c_str_def)
    then have "?line = [] \<or> hd ?line \<noteq> ch CHR ''!''"
      using f by auto
    then have "\<not> frame_complete (data (snd (feed p (bs @ [10]))))"
      unfolding dat using process_line_not_bang(1) nf by simp
    then show ?thesis
      unfolding whole using Cons by simp
  qed
qed

lemma body_run:
  assumes "is_frame_start s" "ch CHR ''!'' \<notin> set rest"
  shows "open_frame (snd (feed dsmr_parser_init (s # rest))) (crc16 (s # rest))"
proof -
  have "\<not> frame_active dsmr_parser_init"
    by (simp add: dsmr_parser_init_def)
  then have "open_frame (snd (dsmr_parse_byte dsmr_parser_init s)) (crc16_update 0 s)"
    using open_frame_start[OF quiet_init _ assms(1)] by simp
  then show ?thesis
    using open_frame_feed[OF _ assms(2)]
    by (simp add: feed_Cons crc16_def del: feed.simps)
qed

lemma telegram_outcome:
  assumes "is_frame_start s" "ch CHR ''!'' \<notin> set rest"
    and hex: "hex_digit h1 = Some d1" "hex_digit h2 = Some d2"
      "hex_digit h3 = Some d3" "hex_digit h4 = Some d4"
  shows "frame_ok (telegram_of (s # rest) [h1, h2, h3, h4])
           \<longleftrightarrow> pending (snd (feed dsmr_parser_init (s # rest))) = []
               \<and> (word_of_int (((d1 * 16 + d2) * 16 + d3) * 16 + d4) :: 16 word)
                    = crc16 (s # rest @ [ch CHR ''!''])"
proof -
  have c: "crc16 (s # rest @ [ch CHR ''!'']) = crc16_update (crc16 (s # rest)) (ch CHR ''!'')"
    by (simp add: crc16_def)
  have "snd (feed dsmr_parser_init (telegram_of (s # rest) [h1, h2, h3, h4]))
          = snd (feed (snd (feed dsmr_parser_init (s # rest)))
                  (ch CHR ''!'' # [h1, h2, h3, h4] @ [13, 10]))"
    unfolding telegram_of_def by (subst feed_append) simp
  then show ?thesis
    unfolding frame_ok_def c
    using terminator_outcome[OF body_run[OF assms(1,2)] hex] by simp
qed

lemma valid_telegram:
  assumes "ch CHR ''!'' \<notin> set rest" "last (ch CHR ''/'' # rest) = 10"
    and hex: "hex_digit h1 = Some d1" "hex_digit h2 = Some d2"
      "hex_digit h3 = Some d3" "hex_digit h4 = Some d4"
    and sum: "(word_of_int (((d1 * 16 + d2) * 16 + d3) * 16 + d4) :: 16 word)
                = crc16 (ch CHR ''/'' # rest @ [ch CHR ''!''])"
  shows "frame_ok (telegram_of (ch CHR ''/'' # rest) [h1, h2, h3, h4])"
proof -
  have st: "is_frame_start (ch CHR ''/'')"
    by (simp add: is_frame_start_def)
  have ne: "rest \<noteq> []"
    using assms(2) by (cases rest) simp_all
  then have r: "rest = butlast rest @ [10]"
    using assms(2) by (metis append_butlast_last_id last_ConsR)
  have nb: "ch CHR ''!'' \<notin> set (butlast rest)"
    using assms(1) by (meson in_set_butlastD)
  have "\<not> frame_active dsmr_parser_init"
    by (simp add: dsmr_parser_init_def)
  then have o: "open_frame (snd (dsmr_parse_byte dsmr_parser_init (ch CHR ''/'')))
                  (crc16_update 0 (ch CHR ''/''))"
    using open_frame_start[OF quiet_init _ st] by simp
  have "pending (snd (feed (snd (dsmr_parse_byte dsmr_parser_init (ch CHR ''/'')))
            (butlast rest @ [10]))) = []"
    by (rule open_frame_after_lf[OF o nb])
  then have "pending (snd (feed dsmr_parser_init (ch CHR ''/'' # rest))) = []"
    using r by (simp add: feed_Cons del: feed.simps of_char_Char)
  then show ?thesis
    using telegram_outcome[OF st assms(1) hex] sum by simp
qed

lemma changed_body_byte:
  assumes nb: "ch CHR ''!'' \<notin> set rest" and k: "k < length rest"
    and x: "x \<noteq> rest ! k" "x \<noteq> ch CHR ''!''"
    and hex: "hex_digit h1 = Some d1" "hex_digit h2 = Some d2"
      "hex_digit h3 = Some d3" "hex_digit h4 = Some d4"
    and sum: "(word_of_int (((d1 * 16 + d2) * 16 + d3) * 16 + d4) :: 16 word)
                = crc16 (ch CHR ''/'' # rest @ [ch CHR ''!''])"
  shows "\<not> frame_ok (telegram_of (ch CHR ''/'' # rest[k := x]) [h1, h2, h3, h4])"
proof
  assume ok: "frame_ok (telegram_of (ch CHR ''/'' # rest[k := x]) [h1, h2, h3, h4])"
  have st: "is_frame_start (ch CHR ''/'')"
    by (simp add: is_frame_start_def)
  have "set (rest[k := x]) \<subseteq> insert x (set rest)"
    by (rule set_update_subset_insert)
  then have nb': "ch CHR ''!'' \<notin> set (rest[k := x])"
    using nb x(2) by auto
  have "(word_of_int (((d1 * 16 + d2) * 16 + d3) * 16 + d4) :: 16 word)
          = crc16 (ch CHR ''/'' # rest[k := x] @ [ch CHR ''!''])"
    using telegram_outcome[OF st nb' hex] ok by simp
  then have e: "crc16 (ch CHR ''/'' # rest[k := x] @ [ch CHR ''!''])
                  = crc16 (ch CHR ''/'' # rest @ [ch CHR ''!''])"
    using sum by simp
  define pre where "pre = ch CHR ''/'' # take k rest"
  define suf where "suf = drop (Suc k) rest @ [ch CHR ''!'']"
  have "ch CHR ''/'' # rest[k := x] @ [ch CHR ''!''] = pre @ x # suf"
    using k by (simp add: pre_def suf_def upd_conv_take_nth_drop)
  moreover have "ch CHR ''/'' # rest @ [ch CHR ''!''] = pre @ rest ! k # suf"
    using k by (simp add: pre_def suf_def id_take_nth_drop[symmetric])
  ultimately have "crc16 (pre @ x # suf) = crc16 (pre @ rest ! k # suf)"
    using e by simp
  then have "x = rest ! k"
    by (rule crc16_one_byte)
  then show False
    using x(1) by simp
qed

lemma changed_terminator:
  assumes nb: "ch CHR ''!'' \<notin> set rest" and y: "y \<noteq> ch CHR ''!''"
    and hex: "hex_digit h1 = Some d1" "hex_digit h2 = Some d2"
      "hex_digit h3 = Some d3" "hex_digit h4 = Some d4"
  shows "\<not> frame_ok (ch CHR ''/'' # rest @ y # [h1, h2, h3, h4] @ [13, 10])"
proof -
  note hp = hex_digit_plain[OF hex(1)] hex_digit_plain[OF hex(2)]
    hex_digit_plain[OF hex(3)] hex_digit_plain[OF hex(4)]
  have "ch CHR ''!'' \<notin> set (ch CHR ''/'' # rest @ y # [h1, h2, h3, h4] @ [13, 10])"
    using nb y hp by simp
  then have "quiet (snd (feed dsmr_parser_init (ch CHR ''/'' # rest @ y # [h1, h2, h3, h4] @ [13, 10])))"
    by (rule quiet_feed[OF quiet_init])
  then show ?thesis
    by (simp add: frame_ok_def quiet_def)
qed

lemma crc_of_slash: "crc16_update 0 (ch CHR ''/'') \<noteq> 0"
  by (simp add: crc_eval del: crc16_bits.simps)

lemma changed_first_byte:
  assumes nb: "ch CHR ''!'' \<notin> set rest"
    and x: "x \<noteq> ch CHR ''/''" "x \<noteq> ch CHR ''!''"
    and s: "is_frame_start x \<or> (rest \<noteq> [] \<and> is_frame_start (hd rest))"
    and hex: "hex_digit h1 = Some d1" "hex_digit h2 = Some d2"
      "hex_digit h3 = Some d3" "hex_digit h4 = Some d4"
    and sum: "(word_of_int (((d1 * 16 + d2) * 16 + d3) * 16 + d4) :: 16 word)
                = crc16 (ch CHR ''/'' # rest @ [ch CHR ''!''])"
  shows "\<not> frame_ok (telegram_of (x # rest) [h1, h2, h3, h4])"
proof (cases "is_frame_start x")
  case True
  show ?thesis
  proof
    assume "frame_ok (telegram_of (x # rest) [h1, h2, h3, h4])"
    then have "crc16 ([] @ x # rest @ [ch CHR ''!''])
                 = crc16 ([] @ ch CHR ''/'' # rest @ [ch CHR ''!''])"
      using telegram_outcome[OF True nb hex] sum by simp
    then have "x = ch CHR ''/''"
      by (rule crc16_one_byte)
    then show False using x(1) by simp
  qed
next
  case False
  then obtain s rest' where r: "rest = s # rest'" and st: "is_frame_start s"
    using s by (cases rest) auto
  have nb': "ch CHR ''!'' \<notin> set rest'"
    using nb r by simp
  have idle: "\<not> frame_active dsmr_parser_init"
    by (simp add: dsmr_parser_init_def)
  have skip: "feed dsmr_parser_init (x # bs) = (0 # fst (feed dsmr_parser_init bs),
      snd (feed dsmr_parser_init bs))" for bs
    by (simp add: feed_Cons idle_byte[OF idle] False del: feed.simps)
  have same: "frame_ok (telegram_of (x # rest) [h1, h2, h3, h4])
                = frame_ok (telegram_of rest [h1, h2, h3, h4])"
    by (simp add: frame_ok_def telegram_of_def skip del: feed.simps)
  show ?thesis
  proof
    assume "frame_ok (telegram_of (x # rest) [h1, h2, h3, h4])"
    then have "frame_ok (telegram_of (s # rest') [h1, h2, h3, h4])"
      using same r by simp
    then have "crc16 (rest @ [ch CHR ''!'']) = crc16 (ch CHR ''/'' # rest @ [ch CHR ''!''])"
      using telegram_outcome[OF st nb' hex] sum r by simp
    then have "foldl crc16_update 0 (rest @ [ch CHR ''!''])
                 = foldl crc16_update (crc16_update 0 (ch CHR ''/'')) (rest @ [ch CHR ''!''])"
      by (simp add: crc16_def)
    then have "0 = crc16_update 0 (ch CHR ''/'')"
      by (rule crc_fold_inj)
    then show False
      using crc_of_slash by simp
  qed
qed

lemma flip_bit_differs: "i < 8 \<Longrightarrow> flip_bit i b \<noteq> b" for b :: byte
proof
  assume i: "i < 8" and e: "flip_bit i b = b"
  have "bit (flip_bit i b) i = (\<not> bit b i)"
    using i by (simp add: bit_flip_bit_iff)
  then show False
    using e by simp
qed

lemma bit_index_cases: "i < 8 \<Longrightarrow> i \<in> {0, 1, 2, 3, 4, 5, 6, 7 :: nat}"
  by auto

lemma flip_slash:
  assumes "i < 8"
  shows "\<not> is_frame_start (flip_bit i (ch CHR ''/''))" "flip_bit i (ch CHR ''/'') \<noteq> ch CHR ''!''"
  using bit_index_cases[OF assms]
  by (auto simp: flip_bit_eq_xor is_frame_start_def)

lemma sample_rest_body: "ch CHR ''/'' # sample_rest @ [ch CHR ''!''] = sample_body"
  by (simp add: sample_rest_def sample_body_def sample_l1_def bytes_of_def)

text \<open>
  C2, as the code has it. A telegram whose body starts with \<open>/\<close>, contains no \<open>!\<close> and
  ends with a line feed, followed by \<open>!\<close>, four hexadecimal digits that denote the CRC16
  of all bytes from the \<open>/\<close> through the \<open>!\<close>, CR and LF: feeding it sets the
  frame-complete flag. With one bit flipped in a byte of the body after the \<open>/\<close>, the
  flag stays clear unless the flip makes the byte a \<open>!\<close>; with one bit flipped in the
  \<open>!\<close> itself it stays clear; with one bit flipped in the leading \<open>/\<close> it stays clear
  when the byte after the \<open>/\<close> is one that starts a frame (a capital letter, a digit or
  \<open>/\<close>).
\<close>

theorem crc_validation:
  assumes nb: "ch CHR ''!'' \<notin> set rest" and lf: "last (ch CHR ''/'' # rest) = 10"
    and hex: "hex_digit h1 = Some d1" "hex_digit h2 = Some d2"
      "hex_digit h3 = Some d3" "hex_digit h4 = Some d4"
    and sum: "(word_of_int (((d1 * 16 + d2) * 16 + d3) * 16 + d4) :: 16 word)
                = crc16 (ch CHR ''/'' # rest @ [ch CHR ''!''])"
  shows "frame_ok (telegram_of (ch CHR ''/'' # rest) [h1, h2, h3, h4])
       \<and> (\<forall>k i. k < length rest \<and> i < 8 \<and> flip_bit i (rest ! k) \<noteq> ch CHR ''!'' \<longrightarrow>
             \<not> frame_ok (telegram_of (ch CHR ''/'' # rest[k := flip_bit i (rest ! k)])
                   [h1, h2, h3, h4]))
       \<and> (\<forall>i. i < 8 \<longrightarrow>
             \<not> frame_ok (ch CHR ''/'' # rest @ flip_bit i (ch CHR ''!'') # [h1, h2, h3, h4] @ [13, 10]))
       \<and> (\<forall>i. i < 8 \<and> is_frame_start (hd rest) \<longrightarrow>
             \<not> frame_ok (telegram_of (flip_bit i (ch CHR ''/'') # rest) [h1, h2, h3, h4]))"
proof (intro conjI allI impI)
  show "frame_ok (telegram_of (ch CHR ''/'' # rest) [h1, h2, h3, h4])"
    by (rule valid_telegram[OF nb lf hex sum])
next
  fix k i :: nat
  assume a: "k < length rest \<and> i < 8 \<and> flip_bit i (rest ! k) \<noteq> ch CHR ''!''"
  then have "flip_bit i (rest ! k) \<noteq> rest ! k"
    using flip_bit_differs by blast
  then show "\<not> frame_ok (telegram_of (ch CHR ''/'' # rest[k := flip_bit i (rest ! k)])
                   [h1, h2, h3, h4])"
    using changed_body_byte[OF nb _ _ _ hex sum] a by blast
next
  fix i :: nat
  assume "i < 8"
  then have "flip_bit i (ch CHR ''!'') \<noteq> ch CHR ''!''"
    by (rule flip_bit_differs)
  then show "\<not> frame_ok (ch CHR ''/'' # rest @ flip_bit i (ch CHR ''!'') # [h1, h2, h3, h4] @ [13, 10])"
    by (rule changed_terminator[OF nb _ hex])
next
  fix i :: nat
  assume a: "i < 8 \<and> is_frame_start (hd rest)"
  have ne: "rest \<noteq> []"
    using lf by (cases rest) simp_all
  have x: "flip_bit i (ch CHR ''/'') \<noteq> ch CHR ''/''" "flip_bit i (ch CHR ''/'') \<noteq> ch CHR ''!''"
    using a flip_bit_differs flip_slash(2) by blast+
  show "\<not> frame_ok (telegram_of (flip_bit i (ch CHR ''/'') # rest) [h1, h2, h3, h4])"
    using changed_first_byte[OF nb x _ hex sum] a ne by blast
qed

theorem crc_validation_witness:
  "ch CHR ''!'' \<notin> set sample_rest \<and> last (ch CHR ''/'' # sample_rest) = 10
   \<and> crc16 (ch CHR ''/'' # sample_rest @ [ch CHR ''!'']) = 0x383D
   \<and> telegram_of (ch CHR ''/'' # sample_rest) (bytes_of ''383D'') = sample_telegram
   \<and> frame_ok sample_telegram
   \<and> sample_rest ! 31 = ch CHR ''4'' \<and> flip_bit 0 (sample_rest ! 31) = ch CHR ''5''
   \<and> \<not> frame_ok (telegram_of (ch CHR ''/'' # sample_rest[31 := flip_bit 0 (sample_rest ! 31)])
          (bytes_of ''383D''))
   \<and> \<not> frame_ok (ch CHR ''/'' # sample_rest @ flip_bit 1 (ch CHR ''!'') # bytes_of ''383D'' @ [13, 10])
   \<and> is_frame_start (hd sample_rest)
   \<and> \<not> frame_ok (telegram_of (flip_bit 6 (ch CHR ''/'') # sample_rest) (bytes_of ''383D''))"
proof -
  have nb: "ch CHR ''!'' \<notin> set sample_rest" and lf: "last (ch CHR ''/'' # sample_rest) = 10"
    by (simp_all add: sample_rest_def sample_l1_def sample_l2_def sample_l3_def bytes_of_def)
  have hex: "hex_digit (ch CHR ''3'') = Some 3" "hex_digit (ch CHR ''8'') = Some 8"
    "hex_digit (ch CHR ''3'') = Some 3" "hex_digit (ch CHR ''D'') = Some 13"
    by (simp_all add: hex_digit_def)
  have crc: "crc16 (ch CHR ''/'' # sample_rest @ [ch CHR ''!'']) = 0x383D"
    using crc_body by (simp only: sample_rest_body)
  have sum: "(word_of_int (((3 * 16 + 8) * 16 + 3) * 16 + 13) :: 16 word)
                = crc16 (ch CHR ''/'' # sample_rest @ [ch CHR ''!''])"
    unfolding crc by simp
  have tele: "telegram_of (ch CHR ''/'' # sample_rest) (bytes_of ''383D'') = sample_telegram"
    by (simp add: telegram_of_def sample_telegram_def sample_rest_body[symmetric] bytes_of_def)
  have b: "sample_rest ! 31 = ch CHR ''4''" "flip_bit 0 (sample_rest ! 31) = ch CHR ''5''"
    "is_frame_start (hd sample_rest)" "length sample_rest = 62"
    by (simp_all add: sample_rest_def sample_l1_def sample_l2_def sample_l3_def bytes_of_def
        flip_bit_eq_xor is_frame_start_def)
  have d: "bytes_of ''383D'' = [ch CHR ''3'', ch CHR ''8'', ch CHR ''3'', ch CHR ''D'']"
    by (simp add: bytes_of_def)
  note v = crc_validation[OF nb lf hex sum, folded d]
  have v1: "frame_ok sample_telegram"
    using v[THEN conjunct1] tele by simp
  have v2: "\<not> frame_ok (telegram_of (ch CHR ''/'' # sample_rest[31 := flip_bit 0 (sample_rest ! 31)])
          (bytes_of ''383D''))"
    using v[THEN conjunct2, THEN conjunct1, rule_format, of 31 0] b
    by simp
  have v3: "\<not> frame_ok (ch CHR ''/'' # sample_rest @ flip_bit 1 (ch CHR ''!'') # bytes_of ''383D'' @ [13, 10])"
    using v[THEN conjunct2, THEN conjunct2, THEN conjunct1, rule_format, of 1]
    by simp
  have v4: "\<not> frame_ok (telegram_of (flip_bit 6 (ch CHR ''/'') # sample_rest) (bytes_of ''383D''))"
    using v[THEN conjunct2, THEN conjunct2, THEN conjunct2, rule_format, of 6] b(3)
    by simp
  show ?thesis
    using nb lf crc tele v1 b(1,2,3) v2 v3 v4 by (simp only: simp_thms)
qed


text \<open>C2 as the claim states it fails in its second part: in the telegram with the body
  \<open>/A\<close>, CR LF, \<open>1\<close>, CR LF and the right checksum \<open>C7D3\<close>, flipping bit 4 of the
  \<open>1\<close> gives \<open>!\<close>; the line is then a terminator line without checksum digits, and the
  frame is accepted.\<close>

theorem flipped_bit_accepted:
  "ch CHR ''!'' \<notin> set cx_rest \<and> last (ch CHR ''/'' # cx_rest) = 10
   \<and> crc16 (ch CHR ''/'' # cx_rest @ [ch CHR ''!'']) = 0xC7D3
   \<and> frame_ok (telegram_of (ch CHR ''/'' # cx_rest) (bytes_of ''C7D3''))
   \<and> cx_rest ! 3 = ch CHR ''1'' \<and> flip_bit 4 (cx_rest ! 3) = ch CHR ''!''
   \<and> frame_ok (telegram_of (ch CHR ''/'' # cx_rest[3 := flip_bit 4 (cx_rest ! 3)])
         (bytes_of ''C7D3''))"
proof -
  have nb: "ch CHR ''!'' \<notin> set cx_rest" and lf: "last (ch CHR ''/'' # cx_rest) = 10"
    by (simp_all add: cx_rest_def bytes_of_def)
  have hex: "hex_digit (ch CHR ''C'') = Some 12" "hex_digit (ch CHR ''7'') = Some 7"
    "hex_digit (ch CHR ''D'') = Some 13" "hex_digit (ch CHR ''3'') = Some 3"
    by (simp_all add: hex_digit_def)
  have crc: "crc16 (ch CHR ''/'' # cx_rest @ [ch CHR ''!'']) = 0xC7D3"
    by (simp add: crc16_def cx_rest_def bytes_of_def crc_eval del: crc16_bits.simps)
  have sum: "(word_of_int (((12 * 16 + 7) * 16 + 13) * 16 + 3) :: 16 word)
                = crc16 (ch CHR ''/'' # cx_rest @ [ch CHR ''!''])"
    unfolding crc by simp
  have d: "bytes_of ''C7D3'' = [ch CHR ''C'', ch CHR ''7'', ch CHR ''D'', ch CHR ''3'']"
    by (simp add: bytes_of_def)
  have ok: "frame_ok (telegram_of (ch CHR ''/'' # cx_rest) (bytes_of ''C7D3''))"
    unfolding d by (rule valid_telegram[OF nb lf hex sum])
  have b: "cx_rest ! 3 = ch CHR ''1''" "flip_bit 4 (cx_rest ! 3) = ch CHR ''!''"
    by (simp_all add: cx_rest_def bytes_of_def flip_bit_eq_xor)
  have f: "frame_ok (telegram_of (ch CHR ''/'' # cx_rest[3 := flip_bit 4 (cx_rest ! 3)])
         (bytes_of ''C7D3''))"
    by code_simp
  show ?thesis
    using nb lf crc ok b f by (simp only: simp_thms)
qed

end
